theory Spec2Isabelle
  imports Main "HOL-Library.AList" "HOL-Library.Word"
begin

section \<open>The dependency-edge engine of the DAG benchmarks (bench.cpp)\<close>

text \<open>
  A shallow embedding of the in-counters, the out-sets and the scheduling glue of
  \<^verbatim>\<open>dag-benchmarks/bench.cpp\<close>. Each definition keeps the name of the C++ function it
  embeds. Atomic cells are modelled by their contents; \<^verbatim>\<open>compare_exchange_strong\<close> is the
  function below, which returns the success flag and the new contents of the cell.
\<close>

definition compare_exchange_strong :: "'a \<Rightarrow> 'a \<Rightarrow> 'a \<Rightarrow> bool \<times> 'a" where
  "compare_exchange_strong cell expected desired =
     (if cell = expected then (True, desired) else (False, cell))"

text \<open>
  Failures of the C++ program that the model keeps as values: a failed \<^verbatim>\<open>assert\<close>, a
  call through a pointer whose object was deleted, a null pointer that is dereferenced, an
  array that is indexed out of its bounds.
\<close>

datatype error = Assertion_failed | Use_after_free | Null_dereference | Out_of_bounds

subsection \<open>direct::dyntree::incounter\_node\<close>

text \<open>
  A child slot of an \<^verbatim>\<open>incounter_node\<close> is a tagged pointer: the tag (0, or
  \<^verbatim>\<open>minus_tag\<close> = 1) and the pointer (\<open>None\<close> is \<^verbatim>\<open>nullptr\<close>). The in-tree and the
  out-tree are trees (every node is allocated by one increment and linked from one slot),
  so a pointer to a node is modelled by the node it points to.
\<close>

datatype incounter_node = Incounter_node (children: "tagged list")
  and tagged = Tagged (tagged_tag_of: nat) (tagged_pointer_of: "incounter_node option")

definition minus_tag :: nat where
  "minus_tag = 1"

definition nullptr :: tagged where
  "nullptr = Tagged 0 None"

text \<open>\<^verbatim>\<open>dyntree_incounter::minus()\<close>: the null pointer tagged with \<^verbatim>\<open>minus_tag\<close>.\<close>

definition minus :: tagged where
  "minus = Tagged minus_tag None"

definition tagged_tag_with :: "incounter_node option \<Rightarrow> nat \<Rightarrow> tagged" where
  "tagged_tag_with n t = Tagged t n"

text \<open>\<^verbatim>\<open>incounter_node::init(v)\<close>: \<^verbatim>\<open>branching_factor\<close> slots, each holding \<open>v\<close>.\<close>

definition init :: "nat \<Rightarrow> tagged \<Rightarrow> incounter_node" where
  "init branching_factor v = Incounter_node (replicate branching_factor v)"

text \<open>
  \<^verbatim>\<open>incounter_node::is_leaf\<close>: the loop returns false at the first slot whose pointer
  part is not null.
\<close>

function is_leaf_from :: "nat \<Rightarrow> nat \<Rightarrow> incounter_node \<Rightarrow> bool" where
  "is_leaf_from branching_factor i n =
     (if i < branching_factor then
        (if tagged_pointer_of (children n ! i) \<noteq> None then False
         else is_leaf_from branching_factor (Suc i) n)
      else True)"
  by pat_completeness auto
termination
  by (relation "measure (\<lambda>(b, i, n). b - i)") auto

declare is_leaf_from.simps [simp del]

definition is_leaf :: "nat \<Rightarrow> incounter_node \<Rightarrow> bool" where
  "is_leaf branching_factor n = is_leaf_from branching_factor 0 n"

subsection \<open>direct::dyntree::dyntree\_incounter::try\_to\_detatch\<close>

text \<open>
  The inner loop of \<^verbatim>\<open>try_to_detatch\<close>, \<^verbatim>\<open>for (int j = i - 1; j >= 0; j--)\<close>, stores
  null into the slots below \<open>i\<close>, from slot \<open>i - 1\<close> down to slot 0.
\<close>

fun rollback :: "nat \<Rightarrow> tagged list \<Rightarrow> tagged list" where
  "rollback 0 cs = cs"
| "rollback (Suc j) cs = rollback j (cs[j := nullptr])"

text \<open>
  The outer loop, from slot \<open>i\<close> on: a compare-and-swap of the slot from null to
  \<^verbatim>\<open>minus()\<close>; at the first one that fails the slots written so far are rolled back and
  the result is false.
\<close>

function try_to_detatch_from :: "nat \<Rightarrow> nat \<Rightarrow> tagged list \<Rightarrow> bool \<times> tagged list" where
  "try_to_detatch_from branching_factor i cs =
     (if i < branching_factor then
        (let (ok, v) = compare_exchange_strong (cs ! i) nullptr minus in
         if \<not> ok then (False, rollback i cs)
         else try_to_detatch_from branching_factor (Suc i) (cs[i := v]))
      else (True, cs))"
  by pat_completeness auto
termination
  by (relation "measure (\<lambda>(b, i, cs). b - i)") auto

declare try_to_detatch_from.simps [simp del]

definition try_to_detatch :: "nat \<Rightarrow> incounter_node \<Rightarrow> bool \<times> incounter_node" where
  "try_to_detatch branching_factor n =
     (let (ok, cs) = try_to_detatch_from branching_factor 0 (children n)
      in (ok, Incounter_node cs))"

section \<open>Nodes, in-strategies and out-strategies (namespace direct)\<close>

type_synonym node = nat

datatype status_type = activated | not_activated

datatype insert_status_type = insert_success | insert_fail

datatype edge_algorithm_type =
  edge_algorithm_simple | edge_algorithm_distributed | edge_algorithm_tree

text \<open>
  The field \<^verbatim>\<open>in\<close> of a node is a tagged word. Its tag is one of the three constants of
  \<^verbatim>\<open>pasl::sched::instrategy\<close> or 0; with tag 0 the value is the address of an incounter
  object, with \<^verbatim>\<open>FETCH_ADD_TAG\<close> the value is the count itself. The field \<^verbatim>\<open>out\<close> is
  tagged with a constant of \<^verbatim>\<open>pasl::sched::outstrategy\<close> or 0; with tag 0 the value is the
  address of an outset object, with the unary tags the address of the successor (or of
  its SNZI leaf), \<open>None\<close> being the null pointer.
\<close>

datatype instrategy_tag = instrategy_object | READY_TAG | UNARY_TAG | FETCH_ADD_TAG

datatype outstrategy_tag =
  outstrategy_object | NOOP_TAG | outstrategy_UNARY_TAG | DIRECT_DISTRIBUTED_UNARY_TAG

datatype instrategy_p = Instrategy (instrategy_extract_tag: instrategy_tag) (instrategy_value: int)

datatype outstrategy_p =
  Outstrategy (outstrategy_extract_tag: outstrategy_tag) (outstrategy_value: "nat option")

text \<open>
  The calls \<^verbatim>\<open>increment_incounter\<close>, \<^verbatim>\<open>outset_insert\<close> and \<^verbatim>\<open>decrement_incounter\<close>
  that ran, in order: a history kept beside the state, so that theorems can speak of the
  calls a run makes.
\<close>

datatype call =
  Call_increment node | Call_insert node insert_status_type | Call_decrement node

text \<open>
  The state: the fields \<^verbatim>\<open>in\<close> and \<^verbatim>\<open>out\<close> of every node, the incounter and outset
  objects by address (\<open>None\<close>: no live object there), the nodes handed to the
  scheduler (\<^verbatim>\<open>pasl::sched::instrategy::schedule\<close> and \<^verbatim>\<open>instrategy::common::start\<close>, which are
  the scheduler's, are modelled by this log), and the history of calls.
\<close>

record ('ic, 'os) world =
  node_in :: "node \<Rightarrow> instrategy_p"
  node_out :: "node \<Rightarrow> outstrategy_p"
  incounter_at :: "nat \<Rightarrow> 'ic option"
  outset_at :: "nat \<Rightarrow> 'os option"
  scheduled :: "node list"
  calls :: "call list"

text \<open>
  The virtual member functions of \<^verbatim>\<open>class incounter\<close> and \<^verbatim>\<open>class outset\<close>, the SNZI
  leaf choice \<^verbatim>\<open>nzi.random_leaf_of\<close> of the distributed incounter (snzi.hpp is not among
  the repository's files) and the global \<^verbatim>\<open>edge_algorithm\<close>: the parameters of the glue
  functions below.
\<close>

record ('ic, 'os) classes =
  virtual_increment :: "node option \<Rightarrow> 'ic \<Rightarrow> 'ic"
  virtual_decrement :: "node option \<Rightarrow> 'ic \<Rightarrow> status_type \<times> 'ic"
  virtual_insert :: "node \<Rightarrow> 'os \<Rightarrow> insert_status_type \<times> 'os"
  random_leaf_of :: "'ic \<Rightarrow> node option \<Rightarrow> nat"
  edge_algorithm :: edge_algorithm_type

definition schedule :: "node \<Rightarrow> ('ic, 'os) world \<Rightarrow> ('ic, 'os) world" where
  "schedule n w = w\<lparr>scheduled := scheduled w @ [n]\<rparr>"

definition record_call :: "call \<Rightarrow> ('ic, 'os) world \<Rightarrow> ('ic, 'os) world" where
  "record_call c w = w\<lparr>calls := calls w @ [c]\<rparr>"

text \<open>
  Modelled from the spec: \<^verbatim>\<open>pasl::data::tagged::atomic_fetch_and_add\<close> (tagged.hpp is not
  among the repository's files). "The handle is the counter, incremented/decremented
  atomically": the value of the tagged word of the node grows by \<open>d\<close>, the tag stays, and
  the old value is returned.
\<close>

definition atomic_fetch_and_add ::
  "node \<Rightarrow> int \<Rightarrow> ('ic, 'os) world \<Rightarrow> int \<times> ('ic, 'os) world" where
  "atomic_fetch_and_add n d w =
     (case node_in w n of Instrategy t v \<Rightarrow>
        (v, w\<lparr>node_in := (node_in w)(n := Instrategy t (v + d))\<rparr>))"

text \<open>
  \<^verbatim>\<open>incounter::delta(source, target, d)\<close> on the incounter object at address \<open>a\<close>, for
  \<open>d = +1\<close> and \<open>d = -1\<close> (the two calls the glue makes).
\<close>

definition delta_increment ::
  "('ic, 'os) classes \<Rightarrow> node option \<Rightarrow> nat \<Rightarrow> ('ic, 'os) world \<Rightarrow> error + ('ic, 'os) world" where
  "delta_increment cl source a w =
     (case incounter_at w a of
        None \<Rightarrow> Inl Use_after_free
      | Some c \<Rightarrow> Inr (w\<lparr>incounter_at := (incounter_at w)(a \<mapsto> virtual_increment cl source c)\<rparr>))"

definition delta_decrement ::
  "('ic, 'os) classes \<Rightarrow> node option \<Rightarrow> node \<Rightarrow> nat \<Rightarrow> ('ic, 'os) world
     \<Rightarrow> error + ('ic, 'os) world" where
  "delta_decrement cl source target a w =
     (case incounter_at w a of
        None \<Rightarrow> Inl Use_after_free
      | Some c \<Rightarrow>
          (let (st, c') = virtual_decrement cl source c;
               w' = w\<lparr>incounter_at := (incounter_at w)(a \<mapsto> c')\<rparr>
           in Inr (if st = activated then schedule target w' else w')))"

text \<open>\<^verbatim>\<open>increment_incounter(source, target, target_in)\<close>.\<close>

definition increment_incounter ::
  "('ic, 'os) classes \<Rightarrow> node option \<Rightarrow> node \<Rightarrow> instrategy_p \<Rightarrow> ('ic, 'os) world
     \<Rightarrow> error + ('ic, 'os) world" where
  "increment_incounter cl source target target_in w0 =
     (let w = record_call (Call_increment target) w0;
          tag = instrategy_extract_tag target_in in
      if tag = READY_TAG then Inl Assertion_failed
      else if tag = UNARY_TAG then Inr w
      else if tag = FETCH_ADD_TAG then Inr (snd (atomic_fetch_and_add target 1 w))
      else delta_increment cl source (nat (instrategy_value target_in)) w)"

text \<open>\<^verbatim>\<open>decrement_incounter(source, target, target_in)\<close>.\<close>

definition decrement_incounter ::
  "('ic, 'os) classes \<Rightarrow> node option \<Rightarrow> node \<Rightarrow> instrategy_p \<Rightarrow> ('ic, 'os) world
     \<Rightarrow> error + ('ic, 'os) world" where
  "decrement_incounter cl source target target_in w0 =
     (let w = record_call (Call_decrement target) w0;
          tag = instrategy_extract_tag target_in in
      if tag = READY_TAG then Inl Assertion_failed
      else if tag = UNARY_TAG then Inr (schedule target w)
      else if tag = FETCH_ADD_TAG then
        (let (old, w') = atomic_fetch_and_add target (- 1) w
         in Inr (if old = 1 then schedule target w' else w'))
      else delta_decrement cl source target (nat (instrategy_value target_in)) w)"

text \<open>\<^verbatim>\<open>decrement_incounter(target)\<close>: with a null source and the node's own field.\<close>

definition decrement_incounter_of ::
  "('ic, 'os) classes \<Rightarrow> node \<Rightarrow> ('ic, 'os) world \<Rightarrow> error + ('ic, 'os) world" where
  "decrement_incounter_of cl target w = decrement_incounter cl None target (node_in w target) w"

text \<open>
  \<^verbatim>\<open>outset_insert(source, source_out, target)\<close>. The unary out-strategies write the field
  \<^verbatim>\<open>out\<close> of the source, which must not be null; an outset object is called through its
  virtual \<^verbatim>\<open>insert\<close>.
\<close>

definition set_out :: "node option \<Rightarrow> outstrategy_p \<Rightarrow> ('ic, 'os) world \<Rightarrow> error + ('ic, 'os) world" where
  "set_out source p w =
     (case source of
        None \<Rightarrow> Inl Null_dereference
      | Some s \<Rightarrow> Inr (w\<lparr>node_out := (node_out w)(s := p)\<rparr>))"

definition outset_insert ::
  "('ic, 'os) classes \<Rightarrow> node option \<Rightarrow> outstrategy_p \<Rightarrow> node \<Rightarrow> ('ic, 'os) world
     \<Rightarrow> error + (insert_status_type \<times> ('ic, 'os) world)" where
  "outset_insert cl source source_out target w =
     (let tag = outstrategy_extract_tag source_out in
      if tag = NOOP_TAG then Inl Assertion_failed
      else if tag = outstrategy_UNARY_TAG then
        (case set_out source (Outstrategy tag (Some target)) w of
           Inl e \<Rightarrow> Inl e
         | Inr w' \<Rightarrow> Inr (insert_success, record_call (Call_insert target insert_success) w'))
      else if tag = DIRECT_DISTRIBUTED_UNARY_TAG then
        (let target_in = node_in w target;
             tg = instrategy_extract_tag target_in in
         case (if tg = instrategy_object \<and> edge_algorithm cl = edge_algorithm_distributed then
                 (case incounter_at w (nat (instrategy_value target_in)) of
                    None \<Rightarrow> Inl Use_after_free
                  | Some c \<Rightarrow>
                      set_out source
                        (Outstrategy DIRECT_DISTRIBUTED_UNARY_TAG (Some (random_leaf_of cl c source))) w)
               else set_out source (Outstrategy outstrategy_UNARY_TAG (Some target)) w) of
           Inl e \<Rightarrow> Inl e
         | Inr w' \<Rightarrow> Inr (insert_success, record_call (Call_insert target insert_success) w'))
      else
        (case outstrategy_value source_out of
           None \<Rightarrow> Inl Null_dereference
         | Some a \<Rightarrow>
             (case outset_at w a of
                None \<Rightarrow> Inl Use_after_free
              | Some s \<Rightarrow>
                  (let (r, s') = virtual_insert cl target s
                   in Inr (r, record_call (Call_insert target r)
                                (w\<lparr>outset_at := (outset_at w)(a \<mapsto> s')\<rparr>))))))"

text \<open>\<^verbatim>\<open>add_edge(source, source_out, target, target_in)\<close>.\<close>

definition add_edge ::
  "('ic, 'os) classes \<Rightarrow> node option \<Rightarrow> outstrategy_p \<Rightarrow> node \<Rightarrow> instrategy_p
     \<Rightarrow> ('ic, 'os) world \<Rightarrow> error + ('ic, 'os) world" where
  "add_edge cl source source_out target target_in w =
     (case increment_incounter cl source target target_in w of
        Inl e \<Rightarrow> Inl e
      | Inr w1 \<Rightarrow>
          (case outset_insert cl source source_out target w1 of
             Inl e \<Rightarrow> Inl e
           | Inr (r, w2) \<Rightarrow>
               if r = insert_fail then decrement_incounter cl source target target_in w2
               else Inr w2))"


subsection \<open>direct::simple::simple\_outset\<close>

text \<open>
  \<^verbatim>\<open>class outset\<close> has the flag \<^verbatim>\<open>should_deallocate_automatically\<close>, which both
  classes of out-sets inherit.
  The atomic \<^verbatim>\<open>head\<close> is a tagged pointer to a list of cells: the tag (\<^verbatim>\<open>finished_code\<close>
  once the out-set is finished) and the nodes of the cells from the head on. Cells are
  only pushed, never popped, so two values of \<^verbatim>\<open>head\<close> are the same pointer exactly when
  they are the same tag and list.
\<close>

record outset =
  should_deallocate_automatically :: bool

record simple_outset = outset +
  head :: "nat \<times> node list"

definition finished_code :: nat where
  "finished_code = 1"



text \<open>
  What other threads do to an atomic cell between a load and the compare-and-swap that
  follows it: for each turn of a retry loop, the value they left in the cell (\<open>None\<close>
  when they left it alone). Once the list is used up no other thread interferes.
\<close>

type_synonym 'a interference = "'a option list"

definition interfere :: "'a option \<Rightarrow> 'a \<Rightarrow> 'a" where
  "interfere e cell = (case e of None \<Rightarrow> cell | Some v \<Rightarrow> v)"

text \<open>
  \<^verbatim>\<open>simple_outset::insert(n)\<close>: each turn of the loop loads the head, fails when it is
  tagged finished, and otherwise tries to swing the head to the new cell.
\<close>

fun simple_outset_insert ::
  "(nat \<times> node list) interference \<Rightarrow> node \<Rightarrow> simple_outset
     \<Rightarrow> insert_status_type \<times> simple_outset" where
  "simple_outset_insert [] n s =
     (let orig = head s in
      if fst orig = finished_code then (insert_fail, s)
      else (insert_success, s\<lparr>head := (0, n # snd orig)\<rparr>))"
| "simple_outset_insert (e # es) n s =
     (let orig = head s in
      if fst orig = finished_code then (insert_fail, s)
      else
        (let s1 = s\<lparr>head := interfere e (head s)\<rparr>;
             (ok, v) = compare_exchange_strong (head s1) orig (0, n # snd orig)
         in if ok then (insert_success, s1\<lparr>head := v\<rparr>)
            else simple_outset_insert es n s1))"




subsection \<open>Well-formed calls of the glue, and runs of edge insertions\<close>


definition same_handle :: "instrategy_p \<Rightarrow> instrategy_p \<Rightarrow> bool" where
  "same_handle p q =
     (instrategy_extract_tag p = instrategy_extract_tag q
      \<and> (instrategy_extract_tag p = instrategy_object \<longrightarrow> instrategy_value p = instrategy_value q))"




text \<open>A future out-set at address 0 and consumers with unary in-strategies, as in \<^verbatim>\<open>node::force\<close>.\<close>

definition force_classes :: "(unit, simple_outset) classes" where
  "force_classes =
     \<lparr>virtual_increment = (\<lambda>source c. c),
      virtual_decrement = (\<lambda>source c. (not_activated, c)),
      virtual_insert = simple_outset_insert [],
      random_leaf_of = (\<lambda>c source. 0),
      edge_algorithm = edge_algorithm_simple\<rparr>"


subsection \<open>Runs of increments and decrements on one in-counter\<close>

text \<open>
  A run of \<^verbatim>\<open>increment_incounter\<close> and \<^verbatim>\<open>decrement_incounter\<close> calls on the in-counter of
  one node, each with the node's own field as \<^verbatim>\<open>target_in\<close>. A decrement reports
  \<^emph>\<open>activated\<close> by scheduling the node. \<open>never_below_zero c ops\<close>: started at count
  \<open>c\<close>, no decrement of \<open>ops\<close> finds the count at zero or below. \<open>balance ops\<close>: the
  increments minus the decrements. \<open>zero_returns c ops\<close>: the decrements of \<open>ops\<close> that
  leave the count at zero. The count of the fetch-add strategy lives in the value bits of
  a 64-bit word; the model takes it as an integer, so runs are assumed shorter than the
  range of the word.
\<close>

datatype incounter_op = Op_increment | Op_decrement

fun run_incounter ::
  "('ic, 'os) classes \<Rightarrow> node \<Rightarrow> incounter_op list \<Rightarrow> ('ic, 'os) world
     \<Rightarrow> error + ('ic, 'os) world" where
  "run_incounter cl t [] w = Inr w"
| "run_incounter cl t (Op_increment # ops) w =
     (case increment_incounter cl None t (node_in w t) w of
        Inl e \<Rightarrow> Inl e
      | Inr w' \<Rightarrow> run_incounter cl t ops w')"
| "run_incounter cl t (Op_decrement # ops) w =
     (case decrement_incounter cl None t (node_in w t) w of
        Inl e \<Rightarrow> Inl e
      | Inr w' \<Rightarrow> run_incounter cl t ops w')"

fun never_below_zero :: "int \<Rightarrow> incounter_op list \<Rightarrow> bool" where
  "never_below_zero c [] = True"
| "never_below_zero c (Op_increment # ops) = never_below_zero (c + 1) ops"
| "never_below_zero c (Op_decrement # ops) = (1 \<le> c \<and> never_below_zero (c - 1) ops)"

fun balance :: "incounter_op list \<Rightarrow> int" where
  "balance [] = 0"
| "balance (Op_increment # ops) = balance ops + 1"
| "balance (Op_decrement # ops) = balance ops - 1"

fun zero_returns :: "int \<Rightarrow> incounter_op list \<Rightarrow> nat" where
  "zero_returns c [] = 0"
| "zero_returns c (Op_increment # ops) = zero_returns (c + 1) ops"
| "zero_returns c (Op_decrement # ops) = (if c - 1 = 0 then 1 else 0) + zero_returns (c - 1) ops"

definition fetch_add_world :: "(unit, simple_outset) world" where
  "fetch_add_world =
     \<lparr>node_in = (\<lambda>n. Instrategy FETCH_ADD_TAG 0),
      node_out = (\<lambda>n. Outstrategy NOOP_TAG None),
      incounter_at = (\<lambda>a. None),
      outset_at = (\<lambda>a. None),
      scheduled = [],
      calls = []\<rparr>"

subsection \<open>benchmarks::simple\_incounter\_wrapper\<close>

text \<open>
  The wrapper of the in-counter microbenchmark: a \<^verbatim>\<open>std::atomic<int>\<close>. Its \<^verbatim>\<open>decrement\<close>
  is \<^verbatim>\<open>return counter-- == 0\<close>: the post-decrement yields the old value.
\<close>

definition simple_incounter_wrapper_increment :: "32 word \<Rightarrow> 32 word" where
  "simple_incounter_wrapper_increment counter = counter + 1"

definition simple_incounter_wrapper_decrement :: "32 word \<Rightarrow> bool \<times> 32 word" where
  "simple_incounter_wrapper_decrement counter = (counter = 0, counter - 1)"


section \<open>The lazy parallel-for node (direct::lazy\_parallel\_for\_rec)\<close>

text \<open>
  The fields \<^verbatim>\<open>lo\<close> and \<^verbatim>\<open>hi\<close> are of type \<^verbatim>\<open>long\<close>: integers between \<open>LONG_MIN\<close> and
  \<open>LONG_MAX\<close>. \<open>long x\<close> is the 64-bit two's-complement value of \<open>x\<close>: a sum
  that leaves the range wraps around, as the usual compilation of the code does.
  \<open>long_div\<close> is the division of C++, which truncates towards zero.
\<close>

definition LONG_MIN :: int where
  "LONG_MIN = - (2 ^ 63)"

definition LONG_MAX :: int where
  "LONG_MAX = 2 ^ 63 - 1"

definition long :: "int \<Rightarrow> int" where
  "long x = (x + 2 ^ 63) mod 2 ^ 64 - 2 ^ 63"

definition long_div :: "int \<Rightarrow> int \<Rightarrow> int" where
  "long_div a b = long (sgn a * sgn b * (\<bar>a\<bar> div \<bar>b\<bar>))"

definition in_long_range :: "int \<Rightarrow> bool" where
  "in_long_range x = (LONG_MIN \<le> x \<and> x \<le> LONG_MAX)"

text \<open>
  The block ids of a node: \<^verbatim>\<open>uninitialized_block_id\<close> and \<^verbatim>\<open>entry_block_id\<close> of
  \<^verbatim>\<open>class node\<close>, and the enumeration \<^verbatim>\<open>process_block, repeat_block, exit\<close> of the
  parallel-for node.
\<close>

definition uninitialized_block_id :: int where
  "uninitialized_block_id = - 1"

definition entry_block_id :: int where
  "entry_block_id = 0"

definition process_block :: int where
  "process_block = 0"

definition repeat_block :: int where
  "repeat_block = 1"

record lazy_parallel_for_rec =
  current_block_id :: int
  continuation_block_id :: int
  lo :: int
  hi :: int
  join :: node

text \<open>
  The constructor: \<^verbatim>\<open>node()\<close> sets the current block to \<^verbatim>\<open>uninitialized_block_id\<close>
  and the continuation to \<^verbatim>\<open>entry_block_id\<close>.
\<close>

definition new_parallel_for :: "int \<Rightarrow> int \<Rightarrow> node \<Rightarrow> lazy_parallel_for_rec" where
  "new_parallel_for l h j =
     \<lparr>current_block_id = uninitialized_block_id, continuation_block_id = entry_block_id,
      lo = l, hi = h, join = j\<rparr>"

text \<open>
  \<^verbatim>\<open>node::jump_to(b)\<close> sets the continuation block and hands the node back to the
  scheduler (\<^verbatim>\<open>continue_with\<close>); the flag says that the node was scheduled again.
\<close>

definition jump_to :: "int \<Rightarrow> lazy_parallel_for_rec \<Rightarrow> lazy_parallel_for_rec \<times> bool" where
  "jump_to target st = (st\<lparr>continuation_block_id := target\<rparr>, True)"

text \<open>
  \<^verbatim>\<open>for (i = lo; i < n; i++) _body(i)\<close>: the indices the loop body is applied to, in
  order, and the final value of \<open>i\<close>. (\<open>i < n \<le> LONG_MAX\<close>, so \<open>i + 1\<close> does
  not overflow.)
\<close>

function for_loop :: "int \<Rightarrow> int \<Rightarrow> int list \<times> int" where
  "for_loop i n =
     (if i < n then (let (js, k) = for_loop (i + 1) n in (i # js, k)) else ([], i))"
  by pat_completeness auto
termination
  by (relation "measure (\<lambda>(i, n). nat (n - i))") auto

declare for_loop.simps [simp del]

text \<open>
  \<^verbatim>\<open>lazy_parallel_for_rec::body()\<close>. The result is the node, whether it was scheduled
  again, and the indices the loop body was applied to.
\<close>

definition body ::
  "int \<Rightarrow> lazy_parallel_for_rec \<Rightarrow> lazy_parallel_for_rec \<times> bool \<times> int list" where
  "body communication_delay st =
     (if current_block_id st = process_block then
        (let n = min (hi st) (long (lo st + communication_delay));
             (js, i) = for_loop (lo st) n;
             (st', again) = jump_to repeat_block (st\<lparr>lo := i\<rparr>)
         in (st', again, js))
      else if current_block_id st = repeat_block then
        (if lo st < hi st then
           (let (st', again) = jump_to process_block st in (st', again, []))
         else (st, False, []))
      else (st, False, []))"

text \<open>\<^verbatim>\<open>node::run()\<close>.\<close>

definition run ::
  "int \<Rightarrow> lazy_parallel_for_rec \<Rightarrow> error + (lazy_parallel_for_rec \<times> bool \<times> int list)" where
  "run communication_delay st =
     (let st1 = st\<lparr>current_block_id := continuation_block_id st,
                   continuation_block_id := uninitialized_block_id\<rparr>
      in if current_block_id st1 = uninitialized_block_id then Inl Assertion_failed
         else Inr (body communication_delay st1))"

text \<open>
  The scheduler runs the node again as long as the node schedules itself again. The
  fuel bounds the number of runs: \<open>None\<close> means that the node was still scheduled when
  the fuel ran out.
\<close>

fun run_node ::
  "nat \<Rightarrow> int \<Rightarrow> lazy_parallel_for_rec \<Rightarrow> (error + (lazy_parallel_for_rec \<times> int list)) option" where
  "run_node 0 communication_delay st = None"
| "run_node (Suc fuel) communication_delay st =
     (case run communication_delay st of
        Inl e \<Rightarrow> Some (Inl e)
      | Inr (st', again, js) \<Rightarrow>
          if again then
            (case run_node fuel communication_delay st' of
               None \<Rightarrow> None
             | Some (Inl e) \<Rightarrow> Some (Inl e)
             | Some (Inr (st'', ks)) \<Rightarrow> Some (Inr (st'', js @ ks)))
          else Some (Inr (st', js)))"

text \<open>
  \<^verbatim>\<open>lazy_parallel_for_rec::split()\<close>: \<open>n\<close> is the address of the new node. The result
  is the caller, the new sibling and the outcome of \<^verbatim>\<open>add_edge(n, join)\<close>.
\<close>

definition split ::
  "('ic, 'os) classes \<Rightarrow> node \<Rightarrow> lazy_parallel_for_rec \<Rightarrow> ('ic, 'os) world
     \<Rightarrow> lazy_parallel_for_rec \<times> lazy_parallel_for_rec \<times> (error + ('ic, 'os) world)" where
  "split cl n st w =
     (let mid = long_div (long (hi st + lo st)) 2;
          sibling = new_parallel_for mid (hi st) (join st);
          st' = st\<lparr>hi := mid\<rparr>
      in (st', sibling, add_edge cl (Some n) (node_out w n) (join st) (node_in w (join st)) w))"

section \<open>The dyntree out-set (direct::dyntree::outset\_node, dyntree\_outset)\<close>

text \<open>
  A child slot of an \<^verbatim>\<open>outset_node\<close> is the tagged union \<^verbatim>\<open>tagged_pointer_type\<close>: the
  constructors are the six tags \<^verbatim>\<open>empty\<close> = 1, \<^verbatim>\<open>leaf\<close> = 2, \<^verbatim>\<open>interior\<close> = 3,
  \<^verbatim>\<open>finished_empty\<close> = 4, \<^verbatim>\<open>finished_leaf\<close> = 5 and \<^verbatim>\<open>finished_interior\<close> = 6, with the
  pointer the tag goes with (a successor node for a leaf, an out-set node for an interior
  slot, null for an empty one). The out-set nodes of one out-set live in a store of their
  own: the address of a node is its index in the list \<open>nodes\<close>, a node is the list of
  its slots, and \<^verbatim>\<open>new outset_node\<close> appends to the store. One thread runs at a time, so
  a compare-and-swap that follows the load of its cell finds the value loaded and
  succeeds; the branches of the source that follow a failed compare-and-swap do not
  appear.
\<close>

datatype tagged_pointer_type =
  Empty | Leaf node | Interior nat | Finished_empty | Finished_leaf node | Finished_interior nat

type_synonym outset_node = "tagged_pointer_type list"

record dyntree_outset = outset +
  root :: nat
  nodes :: "outset_node list"

text \<open>
  \<^verbatim>\<open>random_int(lo, hi)\<close> draws from \<open>[lo, hi)\<close>: \<open>r\<close> is the next number of the
  generator of the worker.
\<close>

definition random_int :: "nat \<Rightarrow> nat \<Rightarrow> nat \<Rightarrow> nat" where
  "random_int l h r = l + r mod (h - l)"

text \<open>
  \<^verbatim>\<open>outset_node::init()\<close>, and the constructor \<^verbatim>\<open>outset_node(child1, child2)\<close>, which
  stores into the slots 0 and 1: with fewer than two slots it writes out of bounds.
\<close>

definition outset_node_init :: "nat \<Rightarrow> outset_node" where
  "outset_node_init branching_factor = replicate branching_factor Empty"


text \<open>
  \<^verbatim>\<open>outset_node::make_finished\<close>: the finished counterpart of a tag; a tag that is
  already finished fails the \<^verbatim>\<open>assert\<close>.
\<close>

definition make_finished :: "tagged_pointer_type \<Rightarrow> error + tagged_pointer_type" where
  "make_finished p =
     (case p of
        Empty \<Rightarrow> Inr Finished_empty
      | Leaf n \<Rightarrow> Inr (Finished_leaf n)
      | Interior n \<Rightarrow> Inr (Finished_interior n)
      | _ \<Rightarrow> Inl Assertion_failed)"


text \<open>
\<^verbatim>\<open>dyntree_outset()\<close>: the root is a new node.
\<close>

definition dyntree_outset_new :: "nat \<Rightarrow> dyntree_outset" where
  "dyntree_outset_new branching_factor =
     \<lparr>should_deallocate_automatically = True, root = 0,
      nodes = [outset_node_init branching_factor]\<rparr>"





text \<open>
  The shape of the store of an out-set: every node has \<^verbatim>\<open>branching_factor\<close> slots and
  every interior pointer of a node points to a node allocated after it. The store of a
  new out-set has this shape and insertions keep it.
\<close>

definition points_up :: "nat \<Rightarrow> nat \<Rightarrow> tagged_pointer_type \<Rightarrow> bool" where
  "points_up a n p =
     (case p of Interior b \<Rightarrow> a < b \<and> b < n | Finished_interior b \<Rightarrow> a < b \<and> b < n
      | _ \<Rightarrow> True)"

definition outset_tree :: "nat \<Rightarrow> outset_node list \<Rightarrow> bool" where
  "outset_tree branching_factor h =
     (\<forall>a < length h. length (h ! a) = branching_factor
        \<and> (\<forall>i < branching_factor. points_up a (length h) (h ! a ! i)))"

text \<open>
  The loop over the slots of one node in \<^verbatim>\<open>notify_outset_tree_nodes_partial\<close>: every
  slot is swung to its finished tag, the successor of a leaf is decremented, the node of
  an interior slot is pushed on \<^verbatim>\<open>todo\<close>.
\<close>

function notify_children ::
  "('ic, 'os) classes \<Rightarrow> nat \<Rightarrow> nat \<Rightarrow> outset_node \<Rightarrow> nat list \<Rightarrow> ('ic, 'os) world
     \<Rightarrow> error + (outset_node \<times> nat list \<times> ('ic, 'os) world)" where
  "notify_children cl branching_factor i cs todo w =
     (if i < branching_factor then
        (if length cs \<le> i then Inl Out_of_bounds
         else
           (case make_finished (cs ! i) of
              Inl e \<Rightarrow> Inl e
            | Inr next \<Rightarrow>
                (case cs ! i of
                   Leaf t \<Rightarrow>
                     (case decrement_incounter_of cl t w of
                        Inl e \<Rightarrow> Inl e
                      | Inr w' \<Rightarrow>
                          notify_children cl branching_factor (Suc i) (cs[i := next]) todo w')
                 | Interior p \<Rightarrow>
                     notify_children cl branching_factor (Suc i) (cs[i := next]) (todo @ [p]) w
                 | _ \<Rightarrow> notify_children cl branching_factor (Suc i) (cs[i := next]) todo w)))
      else Inr (cs, todo, w))"
  by pat_completeness auto
termination
  by (relation "measure (\<lambda>(cl, b, i, cs, todo, w). b - i)") auto

declare notify_children.simps [simp del]

text \<open>
  \<^verbatim>\<open>notify_outset_tree_nodes_partial(todo)\<close>: \<open>budget\<close> is what is left of
  \<^verbatim>\<open>communication_delay\<close> (the loop runs while \<^verbatim>\<open>k < communication_delay\<close>); \<^verbatim>\<open>todo.back()\<close>
  is the last element of the list.
\<close>

fun notify_outset_tree_nodes_partial ::
  "('ic, 'os) classes \<Rightarrow> nat \<Rightarrow> nat \<Rightarrow> nat list \<Rightarrow> outset_node list \<Rightarrow> ('ic, 'os) world
     \<Rightarrow> error + (nat list \<times> outset_node list \<times> ('ic, 'os) world)" where
  "notify_outset_tree_nodes_partial cl branching_factor 0 todo h w = Inr (todo, h, w)"
| "notify_outset_tree_nodes_partial cl branching_factor (Suc budget) todo h w =
     (if todo = [] then Inr (todo, h, w)
      else
        (let current = last todo; todo1 = butlast todo in
         if length h \<le> current then Inl Use_after_free
         else
           (case notify_children cl branching_factor 0 (h ! current) todo1 w of
              Inl e \<Rightarrow> Inl e
            | Inr (cs, todo2, w') \<Rightarrow>
                notify_outset_tree_nodes_partial cl branching_factor budget todo2
                  (h[current := cs]) w')))"






subsection \<open>direct::dyntree::dyntree\_incounter\<close>

text \<open>
  The fields \<^verbatim>\<open>in\<close> and \<^verbatim>\<open>out\<close> of a \<^verbatim>\<open>dyntree_incounter\<close>: the root of the in-tree
  (\<open>None\<close> is \<^verbatim>\<open>nullptr\<close>) and the tagged pointer to the root of the out-tree. The
  constructor leaves \<^verbatim>\<open>in\<close> null and allocates an out-tree root whose slots hold
  \<^verbatim>\<open>minus()\<close>.
\<close>

record dyntree_incounter =
  incounter_in :: "incounter_node option"
  incounter_out :: tagged

definition dyntree_incounter_new :: "nat \<Rightarrow> dyntree_incounter" where
  "dyntree_incounter_new branching_factor =
     \<lparr>incounter_in = None,
      incounter_out = tagged_tag_with (Some (init branching_factor minus)) minus_tag\<rparr>"

definition is_activated :: "dyntree_incounter \<Rightarrow> bool" where
  "is_activated inc = (incounter_in inc = None)"

text \<open>
  The calls of \<^verbatim>\<open>random_int(0, branching_factor)\<close> are answered from a list of
  naturals, one element for each turn of an inner loop; the result \<open>None\<close> says that the
  list ran out before the operation returned. An inner \<^verbatim>\<open>while (true)\<close> loop walks down
  from the root and ends in one of three ways: the operation returns (\<open>Return\<close>, with the
  rebuilt subtree), the loop breaks and the outer loop starts again from the root
  (\<open>Break\<close>), or the walk fails. The model is sequential: a compare-and-swap that follows
  a load of the same cell succeeds.
\<close>

datatype 'a walk = Return 'a "nat list" | Break "nat list" | Fail error

text \<open>
  The inner loop of \<^verbatim>\<open>increment\<close>: break at a slot tagged \<^verbatim>\<open>minus_tag\<close>, install the
  leaf in a null slot, descend otherwise.
\<close>

fun increment_walk ::
  "nat \<Rightarrow> nat list \<Rightarrow> incounter_node \<Rightarrow> incounter_node \<Rightarrow> incounter_node walk option" where
  "increment_walk branching_factor [] current leaf = None"
| "increment_walk branching_factor (r # rs) current leaf =
     (let i = random_int 0 branching_factor r in
      if length (children current) \<le> i then Some (Fail Out_of_bounds)
      else
        (let next = children current ! i in
         if tagged_tag_of next = minus_tag then Some (Break rs)
         else if next = nullptr then
           Some (Return (Incounter_node ((children current)[i := Tagged 0 (Some leaf)])) rs)
         else
           (case tagged_pointer_of next of
              None \<Rightarrow> Some (Fail Null_dereference)
            | Some n \<Rightarrow>
                (case increment_walk branching_factor rs n leaf of
                   Some (Return n' rs') \<Rightarrow>
                     Some (Return (Incounter_node
                       ((children current)[i := Tagged (tagged_tag_of next) (Some n')])) rs')
                 | other \<Rightarrow> other))))"

text \<open>
  The outer loop of \<^verbatim>\<open>increment\<close>, after the leaf is allocated: an empty in-tree takes
  the leaf as its root.
\<close>

function dyntree_incounter_increment_loop ::
  "nat \<Rightarrow> nat list \<Rightarrow> incounter_node \<Rightarrow> dyntree_incounter
     \<Rightarrow> (error + (dyntree_incounter \<times> nat list)) option" where
  "dyntree_incounter_increment_loop branching_factor rs leaf inc =
     (case incounter_in inc of
        None \<Rightarrow> Some (Inr (inc\<lparr>incounter_in := Some leaf\<rparr>, rs))
      | Some current \<Rightarrow>
          (case increment_walk branching_factor rs current leaf of
             None \<Rightarrow> None
           | Some (Fail e) \<Rightarrow> Some (Inl e)
           | Some (Return current' rs') \<Rightarrow> Some (Inr (inc\<lparr>incounter_in := Some current'\<rparr>, rs'))
           | Some (Break rs') \<Rightarrow>
               dyntree_incounter_increment_loop branching_factor rs' leaf inc))"
  by pat_completeness auto
termination
proof -
  have shorter: "length rs' < length rs"
    if "increment_walk b rs current leaf = Some (Break rs')" for b rs current leaf rs'
    using that
  proof (induction rs arbitrary: current)
    case Nil
    then show ?case by simp
  next
    case (Cons r rs)
    then show ?case
      by (fastforce simp: Let_def split: if_splits option.splits walk.splits)
  qed
  show ?thesis
    by (relation "measure (\<lambda>(b, rs, leaf, inc). length rs)") (auto dest: shorter)
qed

declare dyntree_incounter_increment_loop.simps [simp del]

definition dyntree_incounter_increment ::
  "nat \<Rightarrow> nat list \<Rightarrow> dyntree_incounter \<Rightarrow> (error + (dyntree_incounter \<times> nat list)) option" where
  "dyntree_incounter_increment branching_factor rs inc =
     dyntree_incounter_increment_loop branching_factor rs (init branching_factor nullptr) inc"

text \<open>
  \<^verbatim>\<open>add_to_out\<close>: the detached node, tagged \<^verbatim>\<open>minus_tag\<close>, is stored in the first slot
  of the random path through the out-tree whose pointer part is null.
\<close>

fun add_to_out_walk ::
  "nat \<Rightarrow> nat list \<Rightarrow> incounter_node \<Rightarrow> tagged
     \<Rightarrow> (error + (incounter_node \<times> nat list)) option" where
  "add_to_out_walk branching_factor [] current n = None"
| "add_to_out_walk branching_factor (r # rs) current n =
     (let i = random_int 0 branching_factor r in
      if length (children current) \<le> i then Some (Inl Out_of_bounds)
      else
        (let next = children current ! i in
         case tagged_pointer_of next of
           None \<Rightarrow> Some (Inr (Incounter_node ((children current)[i := n]), rs))
         | Some c \<Rightarrow>
             (case add_to_out_walk branching_factor rs c n of
                Some (Inr (c', rs')) \<Rightarrow>
                  Some (Inr (Incounter_node
                    ((children current)[i := Tagged (tagged_tag_of next) (Some c')]), rs'))
              | other \<Rightarrow> other)))"

definition add_to_out ::
  "nat \<Rightarrow> nat list \<Rightarrow> incounter_node \<Rightarrow> dyntree_incounter
     \<Rightarrow> (error + (dyntree_incounter \<times> nat list)) option" where
  "add_to_out branching_factor rs n inc =
     (case tagged_pointer_of (incounter_out inc) of
        None \<Rightarrow> Some (Inl Null_dereference)
      | Some current \<Rightarrow>
          (case add_to_out_walk branching_factor rs current (tagged_tag_with (Some n) minus_tag) of
             None \<Rightarrow> None
           | Some (Inl e) \<Rightarrow> Some (Inl e)
           | Some (Inr (current', rs')) \<Rightarrow>
               Some (Inr (inc\<lparr>incounter_out :=
                            Tagged (tagged_tag_of (incounter_out inc)) (Some current')\<rparr>, rs'))))"

text \<open>
  The inner loop of \<^verbatim>\<open>decrement\<close>: break at a slot that is null or tagged
  \<^verbatim>\<open>minus_tag\<close>; a child that is a leaf is detached and its slot set to null (when
  \<^verbatim>\<open>try_to_detatch\<close> fails the loop breaks); descend otherwise. \<open>Return\<close> carries the
  rebuilt subtree and the detached node.
\<close>

fun decrement_walk ::
  "nat \<Rightarrow> nat list \<Rightarrow> incounter_node \<Rightarrow> (incounter_node \<times> incounter_node) walk option" where
  "decrement_walk branching_factor [] current = None"
| "decrement_walk branching_factor (r # rs) current =
     (let i = random_int 0 branching_factor r in
      if length (children current) \<le> i then Some (Fail Out_of_bounds)
      else
        (let next = children current ! i in
         if next = nullptr \<or> tagged_tag_of next = minus_tag then Some (Break rs)
         else
           (case tagged_pointer_of next of
              None \<Rightarrow> Some (Fail Null_dereference)
            | Some n \<Rightarrow>
                if is_leaf branching_factor n then
                  (let (ok, n') = try_to_detatch branching_factor n in
                   if ok then
                     Some (Return (Incounter_node ((children current)[i := nullptr]), n') rs)
                   else Some (Break rs))
                else
                  (case decrement_walk branching_factor rs n of
                     Some (Return (c', d) rs') \<Rightarrow>
                       Some (Return (Incounter_node
                         ((children current)[i := Tagged (tagged_tag_of next) (Some c')]), d) rs')
                   | other \<Rightarrow> other))))"

text \<open>
  \<^verbatim>\<open>decrement\<close>: \<^verbatim>\<open>assert(current != nullptr)\<close>; a root that is a leaf and detaches
  empties the in-tree, and the result is \<^emph>\<open>activated\<close>; otherwise the inner loop runs from
  the root, and the result is \<^emph>\<open>not_activated\<close> once a leaf below the root is detached.
\<close>

function dyntree_incounter_decrement ::
  "nat \<Rightarrow> nat list \<Rightarrow> dyntree_incounter
     \<Rightarrow> (error + (status_type \<times> dyntree_incounter \<times> nat list)) option" where
  "dyntree_incounter_decrement branching_factor rs inc =
     (case incounter_in inc of
        None \<Rightarrow> Some (Inl Assertion_failed)
      | Some current \<Rightarrow>
          (let (ok, current') =
                 (if is_leaf branching_factor current
                  then try_to_detatch branching_factor current else (False, current))
           in if ok then
                (case add_to_out branching_factor rs current' (inc\<lparr>incounter_in := None\<rparr>) of
                   None \<Rightarrow> None
                 | Some (Inl e) \<Rightarrow> Some (Inl e)
                 | Some (Inr (inc', rs')) \<Rightarrow> Some (Inr (activated, inc', rs')))
              else
                (case decrement_walk branching_factor rs current' of
                   None \<Rightarrow> None
                 | Some (Fail e) \<Rightarrow> Some (Inl e)
                 | Some (Break rs') \<Rightarrow>
                     dyntree_incounter_decrement branching_factor rs'
                       (inc\<lparr>incounter_in := Some current'\<rparr>)
                 | Some (Return (root', d) rs') \<Rightarrow>
                     (case add_to_out branching_factor rs' d
                             (inc\<lparr>incounter_in := Some root'\<rparr>) of
                        None \<Rightarrow> None
                      | Some (Inl e) \<Rightarrow> Some (Inl e)
                      | Some (Inr (inc', rs'')) \<Rightarrow> Some (Inr (not_activated, inc', rs''))))))"
  by pat_completeness auto
termination
proof -
  have shorter: "length rs' < length rs"
    if "decrement_walk b rs current = Some (Break rs')" for b rs current rs'
    using that
  proof (induction rs arbitrary: current)
    case Nil
    then show ?case by simp
  next
    case (Cons r rs)
    then show ?case
      by (fastforce simp: Let_def split: if_splits option.splits walk.splits prod.splits)
  qed
  show ?thesis
    by (relation "measure (\<lambda>(b, rs, inc). length rs)") (auto dest: shorter)
qed

declare dyntree_incounter_decrement.simps [simp del]

text \<open>
  A run of increments and decrements on one in-counter, with the results of the
  decrements in order and the unused rest of the random choices.
\<close>

fun run_dyntree_incounter ::
  "nat \<Rightarrow> incounter_op list \<Rightarrow> nat list \<Rightarrow> dyntree_incounter
     \<Rightarrow> (error + (dyntree_incounter \<times> status_type list \<times> nat list)) option" where
  "run_dyntree_incounter b [] rs inc = Some (Inr (inc, [], rs))"
| "run_dyntree_incounter b (Op_increment # ops) rs inc =
     (case dyntree_incounter_increment b rs inc of
        None \<Rightarrow> None
      | Some (Inl e) \<Rightarrow> Some (Inl e)
      | Some (Inr (inc', rs')) \<Rightarrow> run_dyntree_incounter b ops rs' inc')"
| "run_dyntree_incounter b (Op_decrement # ops) rs inc =
     (case dyntree_incounter_decrement b rs inc of
        None \<Rightarrow> None
      | Some (Inl e) \<Rightarrow> Some (Inl e)
      | Some (Inr (st, inc', rs')) \<Rightarrow>
          (case run_dyntree_incounter b ops rs' inc' of
             None \<Rightarrow> None
           | Some (Inl e) \<Rightarrow> Some (Inl e)
           | Some (Inr (inc'', sts, rs'')) \<Rightarrow> Some (Inr (inc'', st # sts, rs''))))"

text \<open>
  The logical count of the in-counter is the number of nodes of the in-tree
  (\<open>in_tree_size\<close>). \<open>has_slots b n\<close>: every node of the tree \<open>n\<close> has \<open>b\<close> slots.
  \<open>decrement_statuses c ops\<close>: started at count \<open>c\<close>, a decrement is expected to return
  \<^emph>\<open>activated\<close> when it leaves the count at zero.
\<close>

fun nb_nodes :: "incounter_node \<Rightarrow> nat" and nb_nodes_tagged :: "tagged \<Rightarrow> nat" where
  "nb_nodes (Incounter_node cs) = Suc (sum_list (map nb_nodes_tagged cs))"
| "nb_nodes_tagged (Tagged t None) = 0"
| "nb_nodes_tagged (Tagged t (Some n)) = nb_nodes n"

fun has_slots :: "nat \<Rightarrow> incounter_node \<Rightarrow> bool"
  and has_slots_tagged :: "nat \<Rightarrow> tagged \<Rightarrow> bool" where
  "has_slots b (Incounter_node cs) = (length cs = b \<and> (\<forall>c \<in> set cs. has_slots_tagged b c))"
| "has_slots_tagged b (Tagged t None) = True"
| "has_slots_tagged b (Tagged t (Some n)) = has_slots b n"

definition in_tree_size :: "dyntree_incounter \<Rightarrow> int" where
  "in_tree_size inc = (case incounter_in inc of None \<Rightarrow> 0 | Some t \<Rightarrow> int (nb_nodes t))"

definition in_tree_ok :: "nat \<Rightarrow> dyntree_incounter \<Rightarrow> bool" where
  "in_tree_ok b inc = (case incounter_in inc of None \<Rightarrow> True | Some t \<Rightarrow> has_slots b t)"

fun decrement_statuses :: "int \<Rightarrow> incounter_op list \<Rightarrow> status_type list" where
  "decrement_statuses c [] = []"
| "decrement_statuses c (Op_increment # ops) = decrement_statuses (c + 1) ops"
| "decrement_statuses c (Op_decrement # ops) =
     (if c - 1 = 0 then activated else not_activated) # decrement_statuses (c - 1) ops"

definition example_oracle :: "nat list" where
  "example_oracle = [0, 0, 1, 1, 0, 0, 0, 0, 0, 1, 0, 0, 1, 0, 1, 1, 1, 0, 1]"


section \<open>The port-passing variant (namespace portpassing)\<close>

subsection \<open>portpassing::incounter\<close>

text \<open>
  An \<^verbatim>\<open>incounter_node\<close> of the port-passing in-counter has a parent pointer and the
  atomic field \<^verbatim>\<open>nb_removed_children\<close>. The nodes of one in-counter live in a heap: a
  list of cells, the address of a node being its index, and a cell is \<open>None\<close> once the
  node is deleted. \<^verbatim>\<open>new\<close> appends a cell; \<open>deref\<close> reads a cell, and reads \<open>None\<close>
  at an address that was never allocated.
\<close>

record portpassing_incounter_node =
  parent :: "nat option"
  nb_removed_children :: int

type_synonym inport_heap = "portpassing_incounter_node option list"

definition deref :: "'a option list \<Rightarrow> nat \<Rightarrow> 'a option" where
  "deref h a = (if a < length h then h ! a else None)"

definition portpassing_incounter_node_new :: portpassing_incounter_node where
  "portpassing_incounter_node_new = \<lparr>parent = None, nb_removed_children = 0\<rparr>"

text \<open>
  \<^verbatim>\<open>incounter::increment(port)\<close>: one new node for a null port, two new nodes whose
  parent is the port otherwise. The result is the heap and the pair of branches.
\<close>

definition portpassing_incounter_increment ::
  "inport_heap \<Rightarrow> nat option \<Rightarrow> inport_heap \<times> nat option \<times> nat option" where
  "portpassing_incounter_increment h port =
     (case port of
        None \<Rightarrow> (h @ [Some portpassing_incounter_node_new], Some (length h), None)
      | Some p \<Rightarrow>
          (h @ [Some (portpassing_incounter_node_new\<lparr>parent := Some p\<rparr>),
                Some (portpassing_incounter_node_new\<lparr>parent := Some p\<rparr>)],
           Some (length h), Some (Suc (length h))))"

text \<open>
  The loop of \<^verbatim>\<open>incounter::decrement\<close>, with the variables \<^verbatim>\<open>current\<close> and \<^verbatim>\<open>next\<close>.
  Deleting a node that is not allocated, or reading a field of one, is the failure
  \<open>Use_after_free\<close>. The inner loop is sequential: the compare-and-swap of
  \<^verbatim>\<open>nb_removed_children\<close> from 0 to 1 follows a load that read 0, and succeeds. Beside
  the status and the heap the result holds the nodes that \<^verbatim>\<open>current\<close> went through, a
  record of the walk kept for the theorems.
\<close>

function decrement_loop ::
  "inport_heap \<Rightarrow> nat \<Rightarrow> nat option \<Rightarrow> nat list
     \<Rightarrow> error + (status_type \<times> inport_heap \<times> nat list)" where
  "decrement_loop h current next visited =
     (case deref h current of
        None \<Rightarrow> Inl Use_after_free
      | Some c \<Rightarrow>
          (case next of
             None \<Rightarrow> Inr (activated, h[current := None], visited)
           | Some nx \<Rightarrow>
               (let h1 = h[current := None] in
                case deref h1 nx of
                  None \<Rightarrow> Inl Use_after_free
                | Some n \<Rightarrow>
                    if nb_removed_children n \<noteq> 0
                    then decrement_loop h1 nx (parent n) (visited @ [nx])
                    else Inr (not_activated,
                              h1[nx := Some (n\<lparr>nb_removed_children := 1\<rparr>)], visited))))"
  by pat_completeness auto
termination
proof -
  have fewer: "length (filter (\<lambda>x. x \<noteq> None) (h[a := None]))
                 < length (filter (\<lambda>x. x \<noteq> None) h)"
    if "deref h a = Some c" for h :: inport_heap and a c
    using that
  proof (induction h arbitrary: a)
    case Nil
    then show ?case by (simp add: deref_def)
  next
    case (Cons x xs)
    show ?case
    proof (cases a)
      case 0
      then show ?thesis
        using Cons.prems by (simp add: deref_def le_imp_less_Suc)
    next
      case (Suc a')
      then have "deref xs a' = Some c"
        using Cons.prems by (simp add: deref_def split: if_splits)
      from Cons.IH [OF this] show ?thesis using Suc by simp
    qed
  qed
  show ?thesis
    by (relation "measure (\<lambda>(h, current, next, visited). length (filter (\<lambda>x. x \<noteq> None) h))")
       (auto dest: fewer)
qed

declare decrement_loop.simps [simp del]

text \<open>
  \<^verbatim>\<open>incounter::decrement(port)\<close>: \<^verbatim>\<open>assert(port != nullptr)\<close>, then the loop from the
  port and its parent.
\<close>

definition portpassing_incounter_decrement ::
  "inport_heap \<Rightarrow> nat option \<Rightarrow> error + (status_type \<times> inport_heap \<times> nat list)" where
  "portpassing_incounter_decrement h port =
     (case port of
        None \<Rightarrow> Inl Assertion_failed
      | Some p \<Rightarrow>
          (case deref h p of
             None \<Rightarrow> Inl Use_after_free
           | Some c \<Rightarrow> decrement_loop h p (parent c) [p]))"

text \<open>
  A port tree built by increments: \<^verbatim>\<open>increment(nullptr)\<close> makes the root, which is the
  one pending port; then each step forks a pending port with \<^verbatim>\<open>increment(port)\<close> and
  replaces it by the two branches, as \<^verbatim>\<open>fork_in_ports_for\<close> does with the ports of the
  parent and of the child. The list \<open>is\<close> chooses the port of each step (a choice that is
  out of range is skipped). \<open>decrement_ports\<close> calls \<^verbatim>\<open>decrement\<close> on the ports of a
  list, one after the other, and collects the results.
\<close>

fun fork_ports :: "nat list \<Rightarrow> inport_heap \<Rightarrow> nat list \<Rightarrow> inport_heap \<times> nat list" where
  "fork_ports [] h ports = (h, ports)"
| "fork_ports (i # is) h ports =
     (if length ports \<le> i then fork_ports is h ports
      else
        (case portpassing_incounter_increment h (Some (ports ! i)) of
           (h', Some branch1, Some branch2) \<Rightarrow> fork_ports is h' (ports[i := branch1] @ [branch2])
         | other \<Rightarrow> (h, ports)))"

definition port_tree :: "nat list \<Rightarrow> inport_heap \<times> nat list" where
  "port_tree is =
     (case portpassing_incounter_increment [] None of
        (h, Some port, other) \<Rightarrow> fork_ports is h [port]
      | other \<Rightarrow> ([], []))"

fun decrement_ports ::
  "inport_heap \<Rightarrow> nat list \<Rightarrow> error + (status_type list \<times> inport_heap)" where
  "decrement_ports h [] = Inr ([], h)"
| "decrement_ports h (p # ps) =
     (case portpassing_incounter_decrement h (Some p) of
        Inl e \<Rightarrow> Inl e
      | Inr (st, h1, visited) \<Rightarrow>
          (case decrement_ports h1 ps of
             Inl e \<Rightarrow> Inl e
           | Inr (sts, h2) \<Rightarrow> Inr (st # sts, h2)))"

text \<open>
  \<open>parent_chain h path\<close>: each node of the path is followed by its parent in the heap
  \<open>h\<close>. \<open>keeps_parents h0 h\<close>: a node allocated in \<open>h\<close> is allocated in \<open>h0\<close> with the
  same parent.
\<close>

fun parent_chain :: "inport_heap \<Rightarrow> nat list \<Rightarrow> bool" where
  "parent_chain h [] = True"
| "parent_chain h [a] = True"
| "parent_chain h (a # b # path) =
     ((case deref h a of None \<Rightarrow> False | Some c \<Rightarrow> parent c = Some b) \<and> parent_chain h (b # path))"

definition keeps_parents :: "inport_heap \<Rightarrow> inport_heap \<Rightarrow> bool" where
  "keeps_parents h0 h =
     (\<forall>a n. deref h a = Some n \<longrightarrow> (\<exists>n0. deref h0 a = Some n0 \<and> parent n0 = parent n))"

text \<open>
  The invariant of the port tree, for a heap \<open>h\<close> and the set \<open>P\<close> of the pending ports.
  \<open>kids h a\<close> are the allocated nodes whose parent is \<open>a\<close>. A parent is allocated and
  older than its child; a pending port has no child and its field is 0; any other
  allocated node has two children and field 0, or one child and field 1; the pending ports
  are allocated; at most one allocated node has a null parent. \<open>climbing\<close> is the
  invariant of the loop of \<^verbatim>\<open>decrement\<close>: \<^verbatim>\<open>current\<close> is allocated, has lost all its
  children and is about to be deleted.
\<close>

definition kids :: "inport_heap \<Rightarrow> nat \<Rightarrow> nat set" where
  "kids h a = {c. \<exists>n. deref h c = Some n \<and> parent n = Some a}"

definition parents_ok :: "inport_heap \<Rightarrow> nat \<Rightarrow> bool" where
  "parents_ok h a =
     (\<forall>n q. deref h a = Some n \<longrightarrow> parent n = Some q \<longrightarrow> q < a \<and> deref h q \<noteq> None)"

definition node_ok :: "inport_heap \<Rightarrow> nat set \<Rightarrow> nat \<Rightarrow> bool" where
  "node_ok h P a =
     (\<forall>n. deref h a = Some n \<longrightarrow>
        (if a \<in> P then kids h a = {} \<and> nb_removed_children n = 0
         else (nb_removed_children n = 0 \<and> card (kids h a) = 2)
            \<or> (nb_removed_children n = 1 \<and> card (kids h a) = 1)))"

definition one_root :: "inport_heap \<Rightarrow> bool" where
  "one_root h =
     (\<forall>a b n m. deref h a = Some n \<longrightarrow> parent n = None \<longrightarrow>
                deref h b = Some m \<longrightarrow> parent m = None \<longrightarrow> a = b)"

definition inports_ok :: "inport_heap \<Rightarrow> nat set \<Rightarrow> bool" where
  "inports_ok h P =
     ((\<forall>a. parents_ok h a) \<and> (\<forall>a. node_ok h P a) \<and> (\<forall>p \<in> P. deref h p \<noteq> None) \<and> one_root h)"

definition climbing :: "inport_heap \<Rightarrow> nat set \<Rightarrow> nat \<Rightarrow> nat option \<Rightarrow> bool" where
  "climbing h P current next =
     ((\<exists>c. deref h current = Some c \<and> parent c = next) \<and> current \<notin> P \<and> kids h current = {}
      \<and> (\<forall>a. parents_ok h a) \<and> (\<forall>a. a \<noteq> current \<longrightarrow> node_ok h P a)
      \<and> (\<forall>p \<in> P. deref h p \<noteq> None) \<and> one_root h)"


subsection \<open>portpassing::outset and the port maps\<close>

text \<open>
  An \<^verbatim>\<open>outset_node\<close> of the port-passing out-set: the target, the in-port of the target,
  and two atomic child slots. A slot holds a tagged pointer, the tag (0, or \<^verbatim>\<open>frozen_tag\<close>
  = 1) and the address (\<open>None\<close> is the null pointer). The nodes live in a heap like the
  one of the in-counter nodes.
\<close>

datatype port_passing_mode =
  port_passing_default | port_passing_intersection | port_passing_difference

type_synonym outset_pointer = "nat \<times> nat option"

record portpassing_outset_node =
  outset_node_target :: "node option"
  outset_node_port :: "nat option"
  outset_node_children :: "outset_pointer \<times> outset_pointer"

type_synonym outport_heap = "portpassing_outset_node option list"

definition frozen_tag :: nat where
  "frozen_tag = 1"

definition null_outset_pointer :: outset_pointer where
  "null_outset_pointer = (0, None)"

definition portpassing_outset_node_new :: portpassing_outset_node where
  "portpassing_outset_node_new =
     \<lparr>outset_node_target = None, outset_node_port = None,
      outset_node_children = (null_outset_pointer, null_outset_pointer)\<rparr>"

text \<open>
\<^verbatim>\<open>children[i]\<close>, read and written, for \<open>i\<close> = 0 and \<open>i\<close> = 1.
\<close>

definition child_slot :: "nat \<Rightarrow> portpassing_outset_node \<Rightarrow> outset_pointer" where
  "child_slot i n = (if i = 0 then fst (outset_node_children n) else snd (outset_node_children n))"

definition store_child_slot ::
  "nat \<Rightarrow> outset_pointer \<Rightarrow> portpassing_outset_node \<Rightarrow> portpassing_outset_node" where
  "store_child_slot i v n =
     n\<lparr>outset_node_children :=
          (if i = 0 then (v, snd (outset_node_children n))
           else (fst (outset_node_children n), v))\<rparr>"

text \<open>
  One turn of the loop of \<^verbatim>\<open>outset::fork2\<close>, for the slot \<open>i\<close>: a new node is
  allocated, and the slot of the port is swapped from null to the new node; when the
  compare-and-swap fails the new node is deleted and the result is null.
\<close>

definition fork2_branch ::
  "outport_heap \<Rightarrow> nat \<Rightarrow> nat \<Rightarrow> error + (outport_heap \<times> nat option)" where
  "fork2_branch h port i =
     (case deref h port of
        None \<Rightarrow> Inl Use_after_free
      | Some n \<Rightarrow>
          (let branch = length h;
               h1 = h @ [Some portpassing_outset_node_new];
               (ok, v) = compare_exchange_strong (child_slot i n) null_outset_pointer
                           (0, Some branch)
           in if \<not> ok then Inr (h1[branch := None], None)
              else Inr (h1[port := Some (store_child_slot i v n)], Some branch)))"

text \<open>
  \<^verbatim>\<open>outset::fork2(port)\<close>: \<^verbatim>\<open>assert(port != nullptr)\<close>, then slot 1 and slot 0 in this
  order; the result is the pair \<^verbatim>\<open>(branches[0], branches[1])\<close>, or two null pointers
  as soon as a compare-and-swap fails.
\<close>

definition fork2 ::
  "outport_heap \<Rightarrow> nat option \<Rightarrow> error + (outport_heap \<times> nat option \<times> nat option)" where
  "fork2 h port =
     (case port of
        None \<Rightarrow> Inl Assertion_failed
      | Some p \<Rightarrow>
          (case fork2_branch h p 1 of
             Inl e \<Rightarrow> Inl e
           | Inr (h1, None) \<Rightarrow> Inr (h1, None, None)
           | Inr (h1, Some branch1) \<Rightarrow>
               (case fork2_branch h1 p 0 of
                  Inl e \<Rightarrow> Inl e
                | Inr (h2, None) \<Rightarrow> Inr (h2, None, None)
                | Inr (h2, Some branch0) \<Rightarrow> Inr (h2, Some branch0, Some branch1))))"

text \<open>
  A port map (\<^verbatim>\<open>std::unordered_map\<close> from in-counters or out-sets to ports) is an
  association list; the order of its entries is the order in which a loop goes through
  the map. \<^verbatim>\<open>find\<close> is \<open>map_of\<close>, \<^verbatim>\<open>operator[]\<close> on the left of an assignment is
  \<open>AList.update\<close>, \<^verbatim>\<open>erase\<close> is \<open>AList.delete\<close>.
\<close>

type_synonym 'p port_map = "(nat \<times> 'p option) list"

definition intersect_with :: "'p port_map \<Rightarrow> 'p port_map \<Rightarrow> 'p port_map" where
  "intersect_with source destination =
     filter (\<lambda>item. map_of destination (fst item) \<noteq> None) source"

definition difference_with :: "'p port_map \<Rightarrow> 'p port_map \<Rightarrow> 'p port_map" where
  "difference_with source destination =
     filter (\<lambda>item. map_of destination (fst item) = None) source"

text \<open>
\<^verbatim>\<open>propagate_ports_for(mode, parent_ports, child_ports)\<close>: the new ports of the child.
\<close>

definition propagate_ports_for_mode ::
  "port_passing_mode \<Rightarrow> 'p port_map \<Rightarrow> 'p port_map \<Rightarrow> 'p port_map" where
  "propagate_ports_for_mode mode parent_ports child_ports =
     (case mode of
        port_passing_default \<Rightarrow> parent_ports
      | port_passing_intersection \<Rightarrow> intersect_with parent_ports child_ports
      | port_passing_difference \<Rightarrow> difference_with parent_ports child_ports)"

text \<open>
  \<^verbatim>\<open>fork_in_ports_for\<close>: the loop goes through the entries the parent had when the loop
  started.
\<close>

fun fork_in_ports_loop ::
  "nat port_map \<Rightarrow> inport_heap \<Rightarrow> nat port_map \<Rightarrow> nat port_map
     \<Rightarrow> inport_heap \<times> nat port_map \<times> nat port_map" where
  "fork_in_ports_loop [] h parent_ports child_ports = (h, parent_ports, child_ports)"
| "fork_in_ports_loop (item # items) h parent_ports child_ports =
     (if map_of child_ports (fst item) \<noteq> None then
        (case portpassing_incounter_increment h (snd item) of
           (h', new_ports) \<Rightarrow>
             fork_in_ports_loop items h'
               (AList.update (fst item) (fst new_ports) parent_ports)
               (AList.update (fst item) (snd new_ports) child_ports))
      else fork_in_ports_loop items h parent_ports child_ports)"

definition fork_in_ports_for ::
  "inport_heap \<Rightarrow> nat port_map \<Rightarrow> nat port_map \<Rightarrow> inport_heap \<times> nat port_map \<times> nat port_map" where
  "fork_in_ports_for h parent_ports child_ports =
     fork_in_ports_loop parent_ports h parent_ports child_ports"

text \<open>
  \<^verbatim>\<open>fork_out_ports_for\<close>: the first loop, with the vector \<^verbatim>\<open>to_erase\<close>, and the second
  loop, which erases the out-sets of \<^verbatim>\<open>to_erase\<close> from both maps.
\<close>

fun fork_out_ports_loop ::
  "nat port_map \<Rightarrow> outport_heap \<Rightarrow> nat port_map \<Rightarrow> nat port_map \<Rightarrow> nat list
     \<Rightarrow> error + (outport_heap \<times> nat port_map \<times> nat port_map \<times> nat list)" where
  "fork_out_ports_loop [] h parent_ports child_ports to_erase =
     Inr (h, parent_ports, child_ports, to_erase)"
| "fork_out_ports_loop (item # items) h parent_ports child_ports to_erase =
     (if map_of child_ports (fst item) \<noteq> None then
        (case fork2 h (snd item) of
           Inl e \<Rightarrow> Inl e
         | Inr (h', new_ports) \<Rightarrow>
             if fst new_ports = None
             then fork_out_ports_loop items h' parent_ports child_ports (to_erase @ [fst item])
             else fork_out_ports_loop items h'
                    (AList.update (fst item) (fst new_ports) parent_ports)
                    (AList.update (fst item) (snd new_ports) child_ports) to_erase)
      else fork_out_ports_loop items h parent_ports child_ports to_erase)"

fun erase_ports :: "nat list \<Rightarrow> 'p port_map \<Rightarrow> 'p port_map \<Rightarrow> 'p port_map \<times> 'p port_map" where
  "erase_ports [] parent_ports child_ports = (parent_ports, child_ports)"
| "erase_ports (out # to_erase) parent_ports child_ports =
     erase_ports to_erase (AList.delete out parent_ports) (AList.delete out child_ports)"

definition fork_out_ports_for ::
  "outport_heap \<Rightarrow> nat port_map \<Rightarrow> nat port_map
     \<Rightarrow> error + (outport_heap \<times> nat port_map \<times> nat port_map)" where
  "fork_out_ports_for h parent_ports child_ports =
     (case fork_out_ports_loop parent_ports h parent_ports child_ports [] of
        Inl e \<Rightarrow> Inl e
      | Inr (h', parent_ports', child_ports', to_erase) \<Rightarrow>
          Inr (h', erase_ports to_erase parent_ports' child_ports'))"

text \<open>
  The fields of a port-passing \<^verbatim>\<open>node\<close> that \<^verbatim>\<open>propagate_ports_for(parent, child)\<close>
  reads and writes, and the two heaps.
\<close>

record portpassing_node =
  inport_mode :: port_passing_mode
  outport_mode :: port_passing_mode
  inports :: "nat port_map"
  outports :: "nat port_map"

record port_heaps =
  inport_nodes :: inport_heap
  outport_nodes :: outport_heap

definition propagate_ports_for ::
  "portpassing_node \<Rightarrow> portpassing_node \<Rightarrow> port_heaps
     \<Rightarrow> error + (portpassing_node \<times> portpassing_node \<times> port_heaps)" where
  "propagate_ports_for parent_node child_node hs =
     (let in_port_mode = inport_mode child_node;
          out_port_mode = outport_mode child_node;
          child_in = propagate_ports_for_mode in_port_mode (inports parent_node) (inports child_node);
          (hi, parent_in, child_in') = fork_in_ports_for (inport_nodes hs) (inports parent_node) child_in;
          child_out = propagate_ports_for_mode out_port_mode (outports parent_node) (outports child_node)
      in case fork_out_ports_for (outport_nodes hs) (outports parent_node) child_out of
           Inl e \<Rightarrow> Inl e
         | Inr (ho, parent_out, child_out') \<Rightarrow>
             Inr (parent_node\<lparr>inports := parent_in, outports := parent_out\<rparr>,
                  child_node\<lparr>inports := child_in', outports := child_out'\<rparr>,
                  \<lparr>inport_nodes = hi, outport_nodes = ho\<rparr>))"

text \<open>
  \<open>fork2_fails h port\<close>: the call \<^verbatim>\<open>fork2(port)\<close> in the heap \<open>h\<close> returns the two null
  pointers. \<open>occupied h p\<close>: slot 1 or slot 0 of the node \<open>p\<close> is not the null pointer
  (it holds a child, or it is frozen). \<open>frozen_port\<close> is a node whose slots were frozen
  by \<^verbatim>\<open>notify_outset_tree_nodes_partial\<close>.
\<close>

definition fork2_fails :: "outport_heap \<Rightarrow> nat option \<Rightarrow> bool" where
  "fork2_fails h port =
     (case fork2 h port of Inl e \<Rightarrow> False | Inr (h', new_ports) \<Rightarrow> fst new_ports = None)"

definition occupied :: "outport_heap \<Rightarrow> nat \<Rightarrow> bool" where
  "occupied h p =
     (case deref h p of
        None \<Rightarrow> False
      | Some n \<Rightarrow> child_slot 1 n \<noteq> null_outset_pointer \<or> child_slot 0 n \<noteq> null_outset_pointer)"

definition frozen_port :: portpassing_outset_node where
  "frozen_port =
     portpassing_outset_node_new\<lparr>outset_node_children := ((frozen_tag, None), (frozen_tag, None))\<rparr>"

definition example_parent :: portpassing_node where
  "example_parent =
     \<lparr>inport_mode = port_passing_default, outport_mode = port_passing_default,
      inports = [(10, Some 0)], outports = [(20, Some 0), (21, Some 1)]\<rparr>"

definition example_child :: portpassing_node where
  "example_child =
     \<lparr>inport_mode = port_passing_default, outport_mode = port_passing_default,
      inports = [], outports = []\<rparr>"

definition example_heaps :: port_heaps where
  "example_heaps =
     \<lparr>inport_nodes = [Some portpassing_incounter_node_new],
      outport_nodes = [Some frozen_port, Some portpassing_outset_node_new]\<rparr>"


section \<open>Properties\<close>

lemma rollback_eq:
  "i \<le> length cs \<Longrightarrow> rollback i cs = replicate i nullptr @ drop i cs"
proof (induction i arbitrary: cs)
  case 0
  then show ?case by simp
next
  case (Suc j)
  then have j: "j < length cs" by simp
  have "rollback (Suc j) cs = replicate j nullptr @ drop j (cs[j := nullptr])"
    using Suc.IH [of "cs[j := nullptr]"] j by simp
  also have "drop j (cs[j := nullptr]) = nullptr # drop (Suc j) cs"
    using j by (simp add: drop_update_swap Cons_nth_drop_Suc [symmetric] upd_conv_take_nth_drop)
  finally show ?case
    by (simp add: replicate_app_Cons_same)
qed

lemma try_to_detatch_from_spec:
  assumes "length cs = b" and "i \<le> b" and "take i cs = replicate i minus"
    and "try_to_detatch_from b i cs = (ok, cs')"
  shows "(ok \<longrightarrow> cs' = replicate b minus)
       \<and> (\<not> ok \<longrightarrow> cs' = replicate i nullptr @ drop i cs)"
  using assms
proof (induction b i cs rule: try_to_detatch_from.induct)
  case (1 b i cs)
  show ?case
  proof (cases "i < b")
    case False
    then have "try_to_detatch_from b i cs = (True, cs)"
      by (simp add: try_to_detatch_from.simps [of b i cs])
    with False "1.prems" show ?thesis by simp
  next
    case True
    show ?thesis
    proof (cases "cs ! i = nullptr")
      case False
      with True have "try_to_detatch_from b i cs = (False, rollback i cs)"
        by (simp add: try_to_detatch_from.simps [of b i cs] compare_exchange_strong_def)
      with True "1.prems" show ?thesis
        by (simp add: rollback_eq)
    next
      case null: True
      let ?cs = "cs[i := minus]"
      have "try_to_detatch_from b i cs = try_to_detatch_from b (Suc i) ?cs"
        using True null
        by (simp add: try_to_detatch_from.simps [of b i cs] compare_exchange_strong_def)
      then have step: "try_to_detatch_from b (Suc i) ?cs = (ok, cs')"
        using "1.prems"(4) by simp
      have tk: "take (Suc i) ?cs = replicate (Suc i) minus"
        using True "1.prems"(1,3)
        by (simp add: take_Suc_conv_app_nth replicate_append_same)
      have ih: "(ok \<longrightarrow> cs' = replicate b minus)
              \<and> (\<not> ok \<longrightarrow> cs' = replicate (Suc i) nullptr @ drop (Suc i) ?cs)"
        using "1.IH" [of "(True, minus)" True minus] True null "1.prems"(1) tk step
        by (simp add: compare_exchange_strong_def)
      have "drop i cs = nullptr # drop (Suc i) cs"
        using True null "1.prems"(1) by (simp add: Cons_nth_drop_Suc [symmetric])
      then have "replicate (Suc i) nullptr @ drop (Suc i) ?cs = replicate i nullptr @ drop i cs"
        by (simp add: replicate_app_Cons_same)
      with ih show ?thesis by simp
    qed
  qed
qed

text \<open>
  C5. \<^verbatim>\<open>try_to_detatch(n)\<close> on a node with \<^verbatim>\<open>branching_factor\<close> child slots is
  all-or-nothing: when it returns true every slot of the node holds the minus tag (the
  null pointer tagged \<^verbatim>\<open>minus_tag\<close>); when it returns false the slots it had written are
  back to null and the node is as it was before the call.
\<close>

theorem try_to_detatch_all_or_nothing:
  assumes "length (children n) = branching_factor"
    and "try_to_detatch branching_factor n = (ok, n')"
  shows "(ok \<longrightarrow> children n' = replicate branching_factor minus)
       \<and> (\<not> ok \<longrightarrow> n' = n)"
proof -
  obtain cs' where r: "try_to_detatch_from branching_factor 0 (children n) = (ok, cs')"
    and n': "n' = Incounter_node cs'"
    using assms(2) by (cases "try_to_detatch_from branching_factor 0 (children n)")
      (simp add: try_to_detatch_def)
  have "(ok \<longrightarrow> cs' = replicate branching_factor minus)
      \<and> (\<not> ok \<longrightarrow> cs' = replicate 0 nullptr @ drop 0 (children n))"
    by (rule try_to_detatch_from_spec [OF assms(1) _ _ r]) simp_all
  with n' show ?thesis by simp
qed

theorem try_to_detatch_all_or_nothing_witness:
  "try_to_detatch 2 (Incounter_node [nullptr, nullptr])
     = (True, Incounter_node [minus, minus])
   \<and> try_to_detatch 2 (Incounter_node [nullptr, Tagged 0 (Some (init 2 nullptr))])
     = (False, Incounter_node [nullptr, Tagged 0 (Some (init 2 nullptr))])"
proof -
  let ?a = "Incounter_node [nullptr, nullptr]"
  let ?b = "Incounter_node [nullptr, Tagged 0 (Some (init 2 nullptr))]"
  obtain ok1 n1 where r1: "try_to_detatch 2 ?a = (ok1, n1)" by force
  obtain ok2 n2 where r2: "try_to_detatch 2 ?b = (ok2, n2)" by force
  have ok1: "ok1"
    using r1 by (simp add: try_to_detatch_def try_to_detatch_from.simps
        compare_exchange_strong_def nullptr_def minus_def minus_tag_def)
  have ok2: "\<not> ok2"
    using r2 by (simp add: try_to_detatch_def try_to_detatch_from.simps
        compare_exchange_strong_def nullptr_def minus_def minus_tag_def init_def)
  have "children n1 = replicate 2 minus"
    using try_to_detatch_all_or_nothing [of ?a 2 ok1 n1] r1 ok1 by simp
  then have "n1 = Incounter_node [minus, minus]"
    by (cases n1) (simp add: numeral_2_eq_2)
  moreover have "n2 = ?b"
    using try_to_detatch_all_or_nothing [of ?b 2 ok2 n2] r2 ok2 by simp
  ultimately show ?thesis using r1 r2 ok1 ok2 by simp
qed






lemma same_handle_refl [simp]: "same_handle p p"
  by (simp add: same_handle_def)
















lemma fetch_add_increment:
  assumes "node_in w t = Instrategy FETCH_ADD_TAG c"
  shows "\<exists>w'. increment_incounter cl source t (node_in w t) w = Inr w'
           \<and> node_in w' t = Instrategy FETCH_ADD_TAG (c + 1)
           \<and> scheduled w' = scheduled w"
  using assms
  by (simp add: increment_incounter_def Let_def record_call_def atomic_fetch_and_add_def)

lemma fetch_add_decrement:
  assumes "node_in w t = Instrategy FETCH_ADD_TAG c"
  shows "\<exists>w'. decrement_incounter cl source t (node_in w t) w = Inr w'
           \<and> node_in w' t = Instrategy FETCH_ADD_TAG (c - 1)
           \<and> scheduled w' = scheduled w @ (if c - 1 = 0 then [t] else [])"
  using assms
  by (simp add: decrement_incounter_def Let_def record_call_def atomic_fetch_and_add_def
        schedule_def)

lemma run_incounter_fetch_add:
  assumes "node_in w t = Instrategy FETCH_ADD_TAG c"
  shows "\<exists>w'. run_incounter cl t ops w = Inr w'
           \<and> node_in w' t = Instrategy FETCH_ADD_TAG (c + balance ops)
           \<and> scheduled w' = scheduled w @ replicate (zero_returns c ops) t"
  using assms
proof (induction ops arbitrary: w c)
  case Nil
  then show ?case by simp
next
  case (Cons x ops)
  show ?case
  proof (cases x)
    case Op_increment
    obtain w1 where 1: "increment_incounter cl None t (node_in w t) w = Inr w1"
      and n1: "node_in w1 t = Instrategy FETCH_ADD_TAG (c + 1)"
      and s1: "scheduled w1 = scheduled w"
      using fetch_add_increment [OF Cons.prems, of cl None] by auto
    show ?thesis
      using Cons.IH [OF n1] 1 s1 Op_increment by (auto simp: algebra_simps)
  next
    case Op_decrement
    obtain w1 where 1: "decrement_incounter cl None t (node_in w t) w = Inr w1"
      and n1: "node_in w1 t = Instrategy FETCH_ADD_TAG (c - 1)"
      and s1: "scheduled w1 = scheduled w @ (if c - 1 = 0 then [t] else [])"
      using fetch_add_decrement [OF Cons.prems, of cl None] by auto
    show ?thesis
      using Cons.IH [OF n1] 1 s1 Op_decrement
      by (auto simp: algebra_simps replicate_app_Cons_same)
  qed
qed

lemma balanced_last_decrement:
  assumes "never_below_zero c ops" and "c + balance ops = 0" and "ops \<noteq> []" and "0 \<le> c"
  shows "last ops = Op_decrement \<and> 1 \<le> zero_returns c ops"
  using assms
proof (induction c ops rule: never_below_zero.induct)
  case (1 c)
  then show ?case by simp
next
  case (2 c ops)
  then have "ops \<noteq> []" by (cases ops) auto
  with 2 show ?case by (simp add: algebra_simps)
next
  case (3 c ops)
  show ?case
  proof (cases "ops = []")
    case True
    with 3 show ?thesis by simp
  next
    case False
    with 3 show ?thesis by (simp add: algebra_simps)
  qed
qed

text \<open>
  C4, as amended. On the fetch-add in-counter started at zero, every run of increments and
  decrements returns; the count is then the increments minus the decrements; a decrement
  schedules the node exactly when the count it leaves is zero (the old value was 1), so
  the node is scheduled once for every return of the count to zero. When the count never
  went below zero and the decrements equal the increments (and there is at least one),
  the last operation is a decrement that reports, so there is at least one report, and
  the final count is zero.
\<close>

theorem fetch_add_reports_each_return_to_zero:
  assumes "node_in w t = Instrategy FETCH_ADD_TAG 0"
  shows "\<exists>w'. run_incounter cl t ops w = Inr w'
           \<and> node_in w' t = Instrategy FETCH_ADD_TAG (balance ops)
           \<and> scheduled w' = scheduled w @ replicate (zero_returns 0 ops) t
           \<and> (never_below_zero 0 ops \<and> balance ops = 0 \<and> ops \<noteq> [] \<longrightarrow>
                last ops = Op_decrement \<and> 1 \<le> zero_returns 0 ops)
           \<and> (\<forall>u c. node_in u t = Instrategy FETCH_ADD_TAG c \<longrightarrow>
                (\<exists>u'. decrement_incounter cl None t (node_in u t) u = Inr u'
                   \<and> scheduled u' = scheduled u @ (if c = 1 then [t] else [])))"
proof -
  have "\<exists>u'. decrement_incounter cl None t (node_in u t) u = Inr u'
             \<and> scheduled u' = scheduled u @ (if c = 1 then [t] else [])"
    if "node_in u t = Instrategy FETCH_ADD_TAG c" for u :: "('a, 'b) world" and c
    using fetch_add_decrement [OF that, of cl None] by auto
  then show ?thesis
    using run_incounter_fetch_add [OF assms, of cl ops] balanced_last_decrement [of 0 ops]
    by auto
qed

text \<open>
  C4 as stated fails: in the balanced run increment, decrement, increment, decrement the
  count never goes below zero and two decrements report, not one. (The wrapper of the
  microbenchmark reports none: after one increment its decrement returns false.)
\<close>

theorem exactly_one_report_counterexample:
  "never_below_zero 0 [Op_increment, Op_decrement, Op_increment, Op_decrement]
   \<and> balance [Op_increment, Op_decrement, Op_increment, Op_decrement] = 0
   \<and> (\<exists>w'. run_incounter force_classes 7
               [Op_increment, Op_decrement, Op_increment, Op_decrement] fetch_add_world = Inr w'
           \<and> scheduled w' = [7, 7])
   \<and> simple_incounter_wrapper_decrement (simple_incounter_wrapper_increment 0) = (False, 0)"
  by (simp add: fetch_add_world_def increment_incounter_def decrement_incounter_def Let_def
        record_call_def atomic_fetch_and_add_def schedule_def
        simple_incounter_wrapper_decrement_def simple_incounter_wrapper_increment_def)

theorem fetch_add_reports_each_return_to_zero_witness:
  "\<exists>w'. run_incounter force_classes 7 [Op_increment, Op_increment, Op_decrement, Op_decrement]
            fetch_add_world = Inr w'
       \<and> node_in w' 7 = Instrategy FETCH_ADD_TAG 0
       \<and> scheduled w' = [7]"
proof -
  let ?ops = "[Op_increment, Op_increment, Op_decrement, Op_decrement]"
  have "node_in fetch_add_world 7 = Instrategy FETCH_ADD_TAG 0"
    by (simp add: fetch_add_world_def)
  from fetch_add_reports_each_return_to_zero [OF this, of force_classes ?ops]
  obtain w' where "run_incounter force_classes 7 ?ops fetch_add_world = Inr w'"
    and "node_in w' 7 = Instrategy FETCH_ADD_TAG (balance ?ops)"
    and "scheduled w' = scheduled fetch_add_world @ replicate (zero_returns 0 ?ops) 7"
    by blast
  then show ?thesis
    by (simp add: fetch_add_world_def)
qed

lemma long_id: "in_long_range x \<Longrightarrow> long x = x"
  by (simp add: long_def in_long_range_def LONG_MIN_def LONG_MAX_def)

lemma for_loop_upto: "for_loop i n = ([i..n - 1], max i n)"
proof (induction i n rule: for_loop.induct)
  case (1 i n)
  show ?case
  proof (cases "i < n")
    case True
    then have "[i..n - 1] = i # [i + 1..n - 1]" by (simp add: upto_rec1)
    with True 1 show ?thesis by (simp add: for_loop.simps [of i n])
  next
    case False
    then show ?thesis by (simp add: for_loop.simps [of i n])
  qed
qed

lemma run_process_block:
  assumes "continuation_block_id st = process_block"
    and "in_long_range (lo st + communication_delay)" and "0 \<le> communication_delay"
  shows "run communication_delay st =
           Inr (st\<lparr>current_block_id := process_block, continuation_block_id := repeat_block,
                    lo := max (lo st) (min (hi st) (lo st + communication_delay))\<rparr>, True,
                [lo st..min (hi st) (lo st + communication_delay) - 1])"
  using assms
  by (simp add: run_def body_def Let_def process_block_def uninitialized_block_id_def
        for_loop_upto jump_to_def long_id)

lemma run_repeat_block:
  assumes "continuation_block_id st = repeat_block"
  shows "run communication_delay st =
           (if lo st < hi st
            then Inr (st\<lparr>current_block_id := repeat_block,
                          continuation_block_id := process_block\<rparr>, True, [])
            else Inr (st\<lparr>current_block_id := repeat_block,
                          continuation_block_id := uninitialized_block_id\<rparr>, False, []))"
  using assms
  by (simp add: run_def body_def Let_def process_block_def repeat_block_def
        uninitialized_block_id_def jump_to_def)



text \<open>
  With \<^verbatim>\<open>communication_delay\<close> = 0 the node never finishes: the process block applies
  the loop body to no index and the repeat block schedules the process block again.
\<close>

lemma zero_delay_never_completes:
  assumes "lo st = 0" and "hi st = 1"
    and "continuation_block_id st = process_block \<or> continuation_block_id st = repeat_block"
  shows "run_node fuel 0 st = None"
  using assms
proof (induction fuel arbitrary: st)
  case 0
  then show ?case by simp
next
  case (Suc fuel)
  from Suc.prems(3) show ?case
  proof
    assume c: "continuation_block_id st = process_block"
    have "in_long_range (lo st + 0)"
      using Suc.prems(1) by (simp add: in_long_range_def LONG_MIN_def LONG_MAX_def)
    from run_process_block [OF c this]
    have r: "run 0 st = Inr (st\<lparr>current_block_id := process_block,
                continuation_block_id := repeat_block, lo := 0\<rparr>, True, [])"
      using Suc.prems(1,2) by simp
    have "run_node fuel 0 (st\<lparr>current_block_id := process_block,
                continuation_block_id := repeat_block, lo := 0\<rparr>) = None"
      by (rule Suc.IH) (use Suc.prems in simp_all)
    with r show ?thesis by simp
  next
    assume c: "continuation_block_id st = repeat_block"
    from run_repeat_block [OF c, of 0]
    have r: "run 0 st = Inr (st\<lparr>current_block_id := repeat_block,
                          continuation_block_id := process_block\<rparr>, True, [])"
      using Suc.prems(1,2) by simp
    have "run_node fuel 0 (st\<lparr>current_block_id := repeat_block,
                          continuation_block_id := process_block\<rparr>) = None"
      by (rule Suc.IH) (use Suc.prems in simp_all)
    with r show ?thesis by simp
  qed
qed







lemma outset_tree_new: "outset_tree b [outset_node_init b]"
  by (simp add: outset_tree_def outset_node_init_def points_up_def)







lemma decrement_incounter_outset_at:
  "decrement_incounter cl source t target_in w = Inr w' \<Longrightarrow> outset_at w' = outset_at w"
  by (auto simp: decrement_incounter_def Let_def record_call_def atomic_fetch_and_add_def
        delta_decrement_def schedule_def split: if_splits option.splits instrategy_p.splits
        prod.splits)




lemma notify_children_outset_at:
  assumes "notify_children cl b i cs todo w = Inr (cs', todo', w')"
  shows "outset_at w' = outset_at w"
  using assms
proof (induction cl b i cs todo w rule: notify_children.induct)
  case (1 cl b i cs todo w)
  show ?case
  proof (cases "i < b")
    case False
    with "1.prems" show ?thesis by (simp add: notify_children.simps [of cl b i cs todo w])
  next
    case True
    from "1.prems" True have li: "\<not> length cs \<le> i"
      by (auto simp: notify_children.simps [of cl b i cs todo w] split: if_splits)
    from "1.prems"(1) True li obtain nx where nx: "make_finished (cs ! i) = Inr nx"
      by (auto simp: notify_children.simps [of cl b i cs todo w] split: sum.splits)
    show ?thesis
    proof (cases "cs ! i")
      case (Leaf t)
      with "1.prems"(1) True li nx obtain w1 where
        d: "decrement_incounter_of cl t w = Inr w1"
        and r: "notify_children cl b (Suc i) (cs[i := nx]) todo w1 = Inr (cs', todo', w')"
        by (auto simp: notify_children.simps [of cl b i cs todo w] split: sum.splits)
      have "outset_at w1 = outset_at w"
        using d decrement_incounter_outset_at by (simp add: decrement_incounter_of_def)
      with "1.IH"(2) [OF True li nx Leaf d r] show ?thesis by simp
    next
      case (Interior p)
      with "1.prems"(1) True li nx have
        r: "notify_children cl b (Suc i) (cs[i := nx]) (todo @ [p]) w = Inr (cs', todo', w')"
        by (auto simp: notify_children.simps [of cl b i cs todo w] split: sum.splits)
      show ?thesis
        by (rule "1.IH"(3) [OF True li nx Interior r])
    next
      case Empty
      with "1.prems"(1) True li nx have
        r: "notify_children cl b (Suc i) (cs[i := nx]) todo w = Inr (cs', todo', w')"
        by (auto simp: notify_children.simps [of cl b i cs todo w] split: sum.splits)
      show ?thesis
        by (rule "1.IH"(1) [OF True li nx Empty r])
    next
      case Finished_empty
      with nx show ?thesis by (simp add: make_finished_def)
    next
      case (Finished_leaf t)
      with nx show ?thesis by (simp add: make_finished_def)
    next
      case (Finished_interior p)
      with nx show ?thesis by (simp add: make_finished_def)
    qed
  qed
qed

lemma partial_outset_at:
  assumes "notify_outset_tree_nodes_partial cl b k todo h w = Inr (todo', h', w')"
  shows "outset_at w' = outset_at w"
  using assms
proof (induction k arbitrary: todo h w)
  case 0
  then show ?case by simp
next
  case (Suc k)
  show ?case
  proof (cases "todo = []")
    case True
    with Suc.prems show ?thesis by simp
  next
    case False
    let ?c = "last todo"
    from Suc.prems False have lc: "\<not> length h \<le> ?c"
      by (auto simp: Let_def split: if_splits)
    from Suc.prems False lc obtain cs todo2 w1 where
      n: "notify_children cl b 0 (h ! ?c) (butlast todo) w = Inr (cs, todo2, w1)"
      and r: "notify_outset_tree_nodes_partial cl b k todo2 (h[?c := cs]) w1 = Inr (todo', h', w')"
      by (auto simp: Let_def split: sum.splits)
    show ?thesis
      using Suc.IH [OF r] notify_children_outset_at [OF n] by simp
  qed
qed





subsection \<open>The dyntree in-counter is zero exactly when its in-tree is empty\<close>

lemma sum_list_map_update:
  "i < length xs \<Longrightarrow>
     sum_list (map f (xs[i := x])) + f (xs ! i) = sum_list (map f xs) + (f x :: nat)"
proof (induction xs arbitrary: i)
  case Nil
  then show ?case by simp
next
  case (Cons y ys)
  then show ?case by (cases i) auto
qed

lemma nb_nodes_update:
  "i < length cs \<Longrightarrow>
     nb_nodes (Incounter_node (cs[i := x])) + nb_nodes_tagged (cs ! i)
       = nb_nodes (Incounter_node cs) + nb_nodes_tagged x"
  using sum_list_map_update [of i cs nb_nodes_tagged x] by simp

lemma has_slots_update:
  "has_slots b (Incounter_node cs) \<Longrightarrow> has_slots_tagged b x
     \<Longrightarrow> has_slots b (Incounter_node (cs[i := x]))"
  using set_update_subset_insert [of cs i x] by auto

lemma nb_nodes_pos: "0 < nb_nodes t"
  by (cases t) simp

lemma random_int_less: "0 < b \<Longrightarrow> random_int 0 b r < b"
  by (simp add: random_int_def)

lemma increment_walk_size:
  assumes "has_slots b t" and "has_slots b leaf"
    and "increment_walk b rs t leaf = Some (Return t' rs')"
  shows "has_slots b t' \<and> nb_nodes t' = nb_nodes t + nb_nodes leaf"
  using assms
proof (induction rs arbitrary: t t')
  case Nil
  then show ?case by simp
next
  case (Cons r rs)
  obtain cs where t: "t = Incounter_node cs" by (cases t)
  define i where "i = random_int 0 b r"
  from Cons.prems(3) have il: "i < length cs"
    by (auto simp: t i_def Let_def split: if_splits)
  define nx where "nx = cs ! i"
  have nxs: "has_slots_tagged b nx"
    using Cons.prems(1) il by (simp add: t nx_def)
  from Cons.prems(3) il have nm: "tagged_tag_of nx \<noteq> minus_tag"
    by (auto simp: t i_def nx_def Let_def split: if_splits)
  show ?case
  proof (cases "nx = nullptr")
    case True
    then have t': "t' = Incounter_node (cs[i := Tagged 0 (Some leaf)])"
      using Cons.prems(3) il nm by (auto simp: t i_def nx_def Let_def)
    have "nb_nodes_tagged nx = 0" using True by (simp add: nullptr_def)
    then show ?thesis
      using nb_nodes_update [OF il, of "Tagged 0 (Some leaf)"]
        has_slots_update [of b cs "Tagged 0 (Some leaf)" i] Cons.prems(1,2)
      by (simp add: t t' nx_def)
  next
    case False
    from Cons.prems(3) il nm False obtain n where n: "tagged_pointer_of nx = Some n"
      by (auto simp: t i_def nx_def Let_def split: option.splits)
    from Cons.prems(3) il nm False n obtain n' where
      w: "increment_walk b rs n leaf = Some (Return n' rs')"
      and t': "t' = Incounter_node (cs[i := Tagged (tagged_tag_of nx) (Some n')])"
      by (auto simp: t i_def nx_def Let_def split: option.splits walk.splits)
    have nxe: "nx = Tagged (tagged_tag_of nx) (Some n)" using n by (cases nx) simp
    then have ns: "has_slots b n" using nxs by (metis has_slots_tagged.simps(2))
    have ih: "has_slots b n' \<and> nb_nodes n' = nb_nodes n + nb_nodes leaf"
      by (rule Cons.IH [OF ns Cons.prems(2) w])
    have "nb_nodes_tagged nx = nb_nodes n" using nxe by (metis nb_nodes_tagged.simps(2))
    then show ?thesis
      using nb_nodes_update [OF il, of "Tagged (tagged_tag_of nx) (Some n')"]
        has_slots_update [of b cs "Tagged (tagged_tag_of nx) (Some n')" i] Cons.prems(1) ih
      by (simp add: t t' nx_def)
  qed
qed

lemma is_leaf_from_iff:
  "is_leaf_from b i n \<longleftrightarrow> (\<forall>j. i \<le> j \<and> j < b \<longrightarrow> tagged_pointer_of (children n ! j) = None)"
proof (induction b i n rule: is_leaf_from.induct)
  case (1 b i n)
  show ?case
  proof (cases "i < b")
    case False
    then show ?thesis by (auto simp: is_leaf_from.simps [of b i n])
  next
    case True
    show ?thesis
    proof (cases "tagged_pointer_of (children n ! i) = None")
      case False
      with True show ?thesis by (auto simp: is_leaf_from.simps [of b i n])
    next
      case n: True
      have "is_leaf_from b i n = is_leaf_from b (Suc i) n"
        using True n by (simp add: is_leaf_from.simps [of b i n])
      also have "\<dots> \<longleftrightarrow> (\<forall>j. Suc i \<le> j \<and> j < b \<longrightarrow> tagged_pointer_of (children n ! j) = None)"
        using "1.IH" True n by simp
      also have "\<dots> \<longleftrightarrow> (\<forall>j. i \<le> j \<and> j < b \<longrightarrow> tagged_pointer_of (children n ! j) = None)"
        using n by (metis Suc_leI le_neq_implies_less Suc_leD)
      finally show ?thesis .
    qed
  qed
qed

lemma leaf_size:
  assumes "has_slots b n" and "is_leaf b n"
  shows "nb_nodes n = 1"
proof -
  obtain cs where n: "n = Incounter_node cs" by (cases n)
  have len: "length cs = b" using assms(1) by (simp add: n)
  have "nb_nodes_tagged c = 0" if "c \<in> set cs" for c
  proof -
    from that obtain j where "j < length cs" "c = cs ! j" by (auto simp: in_set_conv_nth)
    then have "tagged_pointer_of c = None"
      using assms(2) len by (simp add: is_leaf_def is_leaf_from_iff n)
    then show ?thesis by (cases c) simp
  qed
  then have "sum_list (map nb_nodes_tagged cs) = 0" by simp
  then show ?thesis by (simp add: n)
qed

lemma try_to_detatch_fail_same:
  assumes "length (children n) = b" and "try_to_detatch b n = (False, n')"
  shows "n' = n"
proof -
  obtain cs' where r: "try_to_detatch_from b 0 (children n) = (False, cs')"
    and n': "n' = Incounter_node cs'"
    using assms(2) by (cases "try_to_detatch_from b 0 (children n)")
      (simp add: try_to_detatch_def)
  have "cs' = replicate 0 nullptr @ drop 0 (children n)"
    using try_to_detatch_from_spec [OF assms(1) _ _ r] by simp
  with n' show ?thesis by simp
qed

lemma decrement_walk_size:
  assumes "has_slots b t" and "decrement_walk b rs t = Some (Return (t', d) rs')"
  shows "has_slots b t' \<and> nb_nodes t' + 1 = nb_nodes t"
  using assms
proof (induction rs arbitrary: t t')
  case Nil
  then show ?case by simp
next
  case (Cons r rs)
  obtain cs where t: "t = Incounter_node cs" by (cases t)
  define i where "i = random_int 0 b r"
  from Cons.prems(2) have il: "i < length cs"
    by (auto simp: t i_def Let_def split: if_splits)
  define nx where "nx = cs ! i"
  have nxs: "has_slots_tagged b nx"
    using Cons.prems(1) il by (simp add: t nx_def)
  from Cons.prems(2) il have nm: "\<not> (nx = nullptr \<or> tagged_tag_of nx = minus_tag)"
    by (auto simp: t i_def nx_def Let_def split: if_splits)
  from Cons.prems(2) il nm obtain n where n: "tagged_pointer_of nx = Some n"
    by (auto simp: t i_def nx_def Let_def split: option.splits)
  have nxe: "nx = Tagged (tagged_tag_of nx) (Some n)" using n by (cases nx) simp
  then have ns: "has_slots b n" using nxs by (metis has_slots_tagged.simps(2))
  have nbx: "nb_nodes_tagged nx = nb_nodes n" using nxe by (metis nb_nodes_tagged.simps(2))
  show ?case
  proof (cases "is_leaf b n")
    case True
    then have t': "t' = Incounter_node (cs[i := nullptr])"
      using Cons.prems(2) il nm n
      by (auto simp: t i_def nx_def Let_def split: prod.splits if_splits)
    have "nb_nodes n = 1" by (rule leaf_size [OF ns True])
    then show ?thesis
      using nb_nodes_update [OF il, of nullptr] has_slots_update [of b cs nullptr i]
        Cons.prems(1) nbx
      by (simp add: t t' nx_def nullptr_def)
  next
    case False
    with Cons.prems(2) il nm n obtain n' where
      w: "decrement_walk b rs n = Some (Return (n', d) rs')"
      and t': "t' = Incounter_node (cs[i := Tagged (tagged_tag_of nx) (Some n')])"
      by (auto simp: t i_def nx_def Let_def split: option.splits walk.splits prod.splits)
    have ih: "has_slots b n' \<and> nb_nodes n' + 1 = nb_nodes n"
      by (rule Cons.IH [OF ns w])
    then show ?thesis
      using nb_nodes_update [OF il, of "Tagged (tagged_tag_of nx) (Some n')"]
        has_slots_update [of b cs "Tagged (tagged_tag_of nx) (Some n')" i] Cons.prems(1) nbx
      by (simp add: t t' nx_def)
  qed
qed

lemma add_to_out_in:
  "add_to_out b rs n inc = Some (Inr (inc', rs')) \<Longrightarrow> incounter_in inc' = incounter_in inc"
  by (auto simp: add_to_out_def split: option.splits sum.splits)

lemma increment_loop_size:
  assumes "in_tree_ok b inc" and "has_slots b leaf" and "nb_nodes leaf = 1"
    and "dyntree_incounter_increment_loop b rs leaf inc = Some (Inr (inc', rs'))"
  shows "in_tree_ok b inc' \<and> in_tree_size inc' = in_tree_size inc + 1"
  using assms
proof (induction b rs leaf inc rule: dyntree_incounter_increment_loop.induct)
  case (1 b rs leaf inc)
  note eq = dyntree_incounter_increment_loop.simps [of b rs leaf inc]
  show ?case
  proof (cases "incounter_in inc")
    case None
    with "1.prems" show ?thesis
      by (auto simp: eq in_tree_ok_def in_tree_size_def)
  next
    case (Some current)
    have cs: "has_slots b current" using "1.prems"(1) Some by (simp add: in_tree_ok_def)
    show ?thesis
    proof (cases "increment_walk b rs current leaf")
      case None
      with "1.prems"(4) Some show ?thesis by (simp add: eq)
    next
      case w: (Some res)
      show ?thesis
      proof (cases res)
        case (Return current' rs1)
        then have "inc' = inc\<lparr>incounter_in := Some current'\<rparr>"
          using "1.prems"(4) Some w by (simp add: eq)
        moreover have "rs1 = rs'" using "1.prems"(4) Some w Return by (simp add: eq)
        ultimately show ?thesis
          using increment_walk_size [OF cs "1.prems"(2), of rs current' rs'] w Return Some
            "1.prems"(3)
          by (simp add: in_tree_ok_def in_tree_size_def)
      next
        case (Break rs1)
        then have "dyntree_incounter_increment_loop b rs1 leaf inc = Some (Inr (inc', rs'))"
          using "1.prems"(4) Some w by (simp add: eq)
        then show ?thesis
          using "1.IH" [OF Some w Break "1.prems"(1,2,3)] by simp
      next
        case (Fail e)
        with "1.prems"(4) Some w show ?thesis by (simp add: eq)
      qed
    qed
  qed
qed

lemma increment_size:
  assumes "in_tree_ok b inc" and "dyntree_incounter_increment b rs inc = Some (Inr (inc', rs'))"
  shows "in_tree_ok b inc' \<and> in_tree_size inc' = in_tree_size inc + 1"
proof -
  have "has_slots b (init b nullptr)" "nb_nodes (init b nullptr) = 1"
    by (simp_all add: init_def nullptr_def)
  then show ?thesis
    using increment_loop_size [OF assms(1)] assms(2)
    by (simp add: dyntree_incounter_increment_def)
qed

lemma decrement_size:
  assumes "in_tree_ok b inc"
    and "dyntree_incounter_decrement b rs inc = Some (Inr (st, inc', rs'))"
  shows "in_tree_ok b inc' \<and> in_tree_size inc' = in_tree_size inc - 1
       \<and> 1 \<le> in_tree_size inc \<and> (st = activated \<longleftrightarrow> in_tree_size inc' = 0)"
  using assms
proof (induction b rs inc rule: dyntree_incounter_decrement.induct)
  case (1 b rs inc)
  note eq = dyntree_incounter_decrement.simps [of b rs inc]
  from "1.prems"(2) obtain current where c: "incounter_in inc = Some current"
    by (cases "incounter_in inc") (simp_all add: eq)
  have cs: "has_slots b current" using "1.prems"(1) c by (simp add: in_tree_ok_def)
  then have len: "length (children current) = b" by (cases current) simp
  define first where "first = (if is_leaf b current then try_to_detatch b current
                               else (False, current))"
  obtain ok current' where f: "first = (ok, current')" by (cases first)
  show ?case
  proof (cases ok)
    case True
    then have lf: "is_leaf b current" using f by (auto simp: first_def split: if_splits)
    from "1.prems"(2) c f True obtain inc1 where
      a: "add_to_out b rs current' (inc\<lparr>incounter_in := None\<rparr>) = Some (Inr (inc1, rs'))"
      and r: "st = activated" "inc' = inc1"
      by (auto simp: eq first_def [symmetric] split: option.splits sum.splits)
    have "incounter_in inc' = None" using add_to_out_in [OF a] r by simp
    moreover have "nb_nodes current = 1" by (rule leaf_size [OF cs lf])
    ultimately show ?thesis
      using c r by (simp add: in_tree_ok_def in_tree_size_def)
  next
    case False
    have same: "current' = current"
    proof (cases "is_leaf b current")
      case True
      then show ?thesis
        using f False try_to_detatch_fail_same [OF len, of current'] by (simp add: first_def)
    next
      case False
      then show ?thesis using f by (simp add: first_def)
    qed
    have inc_same: "inc\<lparr>incounter_in := Some current'\<rparr> = inc" using same c by simp
    show ?thesis
    proof (cases "decrement_walk b rs current'")
      case None
      with "1.prems"(2) c f False show ?thesis
        by (simp add: eq first_def [symmetric])
    next
      case w: (Some res)
      show ?thesis
      proof (cases res)
        case (Fail e)
        with "1.prems"(2) c f False w show ?thesis
          by (simp add: eq first_def [symmetric])
      next
        case (Break rs1)
        then have rec: "dyntree_incounter_decrement b rs1 (inc\<lparr>incounter_in := Some current'\<rparr>)
                     = Some (Inr (st, inc', rs'))"
          using "1.prems"(2) c f False w by (simp add: eq first_def [symmetric])
        have "in_tree_ok b (inc\<lparr>incounter_in := Some current'\<rparr>)"
          using "1.prems"(1) inc_same by simp
        from "1.IH" [OF c first_def f [symmetric] False w Break this rec]
        show ?thesis using inc_same by simp
      next
        case (Return pr rs1)
        obtain root' d where pr: "pr = (root', d)" by (cases pr)
        from "1.prems"(2) c f False w Return pr obtain inc1 where
          a: "add_to_out b rs1 d (inc\<lparr>incounter_in := Some root'\<rparr>) = Some (Inr (inc1, rs'))"
          and r: "st = not_activated" "inc' = inc1"
          by (auto simp: eq first_def [symmetric] split: option.splits sum.splits)
        have i': "incounter_in inc' = Some root'" using add_to_out_in [OF a] r by simp
        have "has_slots b root' \<and> nb_nodes root' + 1 = nb_nodes current"
          using decrement_walk_size [OF cs, of rs root' d rs1] w Return pr same by simp
        then show ?thesis
          using c r i' nb_nodes_pos [of root']
          by (simp add: in_tree_ok_def in_tree_size_def)
      qed
    qed
  qed
qed

lemma run_dyntree_incounter_size:
  assumes "in_tree_ok b inc"
    and "run_dyntree_incounter b ops rs inc = Some (Inr (inc', sts, rs'))"
  shows "in_tree_ok b inc' \<and> in_tree_size inc' = in_tree_size inc + balance ops
       \<and> never_below_zero (in_tree_size inc) ops
       \<and> sts = decrement_statuses (in_tree_size inc) ops"
  using assms
proof (induction ops arbitrary: inc rs sts)
  case Nil
  then show ?case by simp
next
  case (Cons x ops)
  show ?case
  proof (cases x)
    case Op_increment
    with Cons.prems(2) obtain inc1 rs1 where
      i: "dyntree_incounter_increment b rs inc = Some (Inr (inc1, rs1))"
      and r: "run_dyntree_incounter b ops rs1 inc1 = Some (Inr (inc', sts, rs'))"
      by (auto split: option.splits sum.splits)
    from increment_size [OF Cons.prems(1) i] Cons.IH [OF _ r]
    show ?thesis using Op_increment by simp
  next
    case Op_decrement
    with Cons.prems(2) obtain st inc1 rs1 sts1 where
      d: "dyntree_incounter_decrement b rs inc = Some (Inr (st, inc1, rs1))"
      and r: "run_dyntree_incounter b ops rs1 inc1 = Some (Inr (inc', sts1, rs'))"
      and s: "sts = st # sts1"
      by (auto split: option.splits sum.splits)
    from decrement_size [OF Cons.prems(1) d] Cons.IH [OF _ r]
    show ?thesis using Op_decrement s by (cases st) auto
  qed
qed

text \<open>
  C3. A run of increments and decrements on a new dyntree in-counter that returns (no
  assertion fails, and the random choices are enough) is one in which the decrements never
  outnumber the increments; after it the in-counter is activated (\<^verbatim>\<open>in == nullptr\<close>)
  exactly when the increments equal the decrements, the in-tree has one node for each
  increment not yet matched by a decrement, and a decrement returned \<^emph>\<open>activated\<close>
  exactly when it left the count at zero.
\<close>

theorem dyntree_incounter_zero_iff_empty:
  assumes "run_dyntree_incounter b ops rs (dyntree_incounter_new b) = Some (Inr (inc, sts, rs'))"
  shows "(is_activated inc \<longleftrightarrow> balance ops = 0)
       \<and> in_tree_size inc = balance ops
       \<and> never_below_zero 0 ops
       \<and> sts = decrement_statuses 0 ops"
proof -
  have ok: "in_tree_ok b (dyntree_incounter_new b)"
    and z: "in_tree_size (dyntree_incounter_new b) = 0"
    by (simp_all add: in_tree_ok_def in_tree_size_def dyntree_incounter_new_def)
  from run_dyntree_incounter_size [OF ok assms]
  have s: "in_tree_size inc = balance ops" and n: "never_below_zero 0 ops"
    and d: "sts = decrement_statuses 0 ops"
    by (simp_all add: z)
  have "is_activated inc \<longleftrightarrow> in_tree_size inc = 0"
    using nb_nodes_pos by (auto simp: is_activated_def in_tree_size_def split: option.splits)
  with s n d show ?thesis by simp
qed

theorem dyntree_incounter_zero_iff_empty_witness:
  "\<exists>inc rs'.
     run_dyntree_incounter 2
       [Op_increment, Op_increment, Op_increment, Op_decrement, Op_decrement, Op_decrement]
       example_oracle (dyntree_incounter_new 2)
       = Some (Inr (inc, [not_activated, not_activated, activated], rs'))
     \<and> is_activated inc \<and> in_tree_size inc = 0"
proof -
  have "case run_dyntree_incounter 2
       [Op_increment, Op_increment, Op_increment, Op_decrement, Op_decrement, Op_decrement]
       example_oracle (dyntree_incounter_new 2) of Some (Inr r) \<Rightarrow> True | other \<Rightarrow> False"
    by code_simp
  then obtain inc sts rs' where r: "run_dyntree_incounter 2
       [Op_increment, Op_increment, Op_increment, Op_decrement, Op_decrement, Op_decrement]
       example_oracle (dyntree_incounter_new 2) = Some (Inr (inc, sts, rs'))"
    by (auto split: option.splits sum.splits)
  from dyntree_incounter_zero_iff_empty [OF r] show ?thesis
    using r by simp
qed


subsection \<open>The port-passing in-counter activates once\<close>

lemma deref_update [simp]:
  "deref (h[a := v]) b = (if b = a \<and> a < length h then v else deref h b)"
  by (simp add: deref_def)

lemma deref_less: "deref h a = Some n \<Longrightarrow> a < length h"
  by (simp add: deref_def split: if_splits)

lemma kids_finite [simp]: "finite (kids h a)"
proof -
  have "kids h a \<subseteq> {..<length h}" by (auto simp: kids_def dest: deref_less)
  then show ?thesis by (rule finite_subset) simp
qed

lemma kids_delete: "kids (h[c := None]) a = kids h a - {c}"
  by (auto simp: kids_def dest: deref_less split: if_splits)

lemma kids_flag:
  "deref h a = Some n \<Longrightarrow> kids (h[a := Some (n\<lparr>nb_removed_children := v\<rparr>)]) b = kids h b"
  by (auto simp: kids_def dest: deref_less split: if_splits)

lemma allocated_has_port:
  assumes "inports_ok h P" and "deref h a = Some n"
  shows "P \<noteq> {}"
proof -
  define A where "A = {a. deref h a \<noteq> None}"
  have fin: "finite A"
  proof -
    have "A \<subseteq> {..<length h}" by (auto simp: A_def deref_def split: if_splits)
    then show ?thesis by (rule finite_subset) simp
  qed
  have ne: "A \<noteq> {}" using assms(2) by (auto simp: A_def)
  define m where "m = Max A"
  have mA: "m \<in> A" unfolding m_def by (rule Max_in [OF fin ne])
  then obtain nm where nm: "deref h m = Some nm" by (auto simp: A_def)
  have "kids h m = {}"
  proof (rule ccontr)
    assume "kids h m \<noteq> {}"
    then obtain c nc where c: "deref h c = Some nc" "parent nc = Some m"
      by (auto simp: kids_def)
    then have "m < c" using assms(1) by (auto simp: inports_ok_def parents_ok_def)
    moreover have "c \<le> m" unfolding m_def using c(1) by (intro Max_ge [OF fin]) (simp add: A_def)
    ultimately show False by simp
  qed
  moreover have "node_ok h P m" using assms(1) by (simp add: inports_ok_def)
  ultimately have "m \<in> P" using nm by (auto simp: node_ok_def split: if_splits)
  then show ?thesis by auto
qed

lemma decrement_loop_root:
  assumes "climbing h P current None"
  shows "P = {} \<and> inports_ok (h[current := None]) {} \<and> (\<forall>a. deref (h[current := None]) a = None)"
proof -
  let ?h = "h[current := None]"
  from assms obtain c where c: "deref h current = Some c" "parent c = None"
    by (auto simp: climbing_def)
  have k: "kids h current = {}" and pa: "\<And>a. parents_ok h a" and r: "one_root h"
    and pp: "\<forall>p \<in> P. deref h p \<noteq> None" and np: "current \<notin> P"
    using assms by (auto simp: climbing_def)
  have none: "deref ?h a = None" for a
  proof (induction a rule: less_induct)
    case (less a)
    show ?case
    proof (rule ccontr)
      assume "deref ?h a \<noteq> None"
      then obtain n where n: "deref h a = Some n" and ac: "a \<noteq> current"
        using deref_less [OF c(1)] by (auto split: if_splits)
      show False
      proof (cases "parent n")
        case None
        then show ?thesis using r c n ac by (auto simp: one_root_def)
      next
        case (Some q)
        then have q: "q < a" "deref h q \<noteq> None"
          using pa [of a] n by (auto simp: parents_ok_def)
        have "deref ?h q = None" by (rule less.IH [OF q(1)])
        then have "q = current" using q(2) by (auto split: if_splits)
        then have "a \<in> kids h current" using n Some by (auto simp: kids_def)
        then show ?thesis using k by simp
      qed
    qed
  qed
  have "P = {}"
  proof (rule ccontr)
    assume "P \<noteq> {}"
    then obtain p where p: "p \<in> P" by auto
    then have "deref h p \<noteq> None" "p \<noteq> current" using pp np by auto
    then have "deref ?h p \<noteq> None" by simp
    then show False using none [of p] by simp
  qed
  moreover have "inports_ok ?h {}"
    unfolding inports_ok_def parents_ok_def node_ok_def one_root_def using none by simp
  ultimately show ?thesis using none by simp
qed

lemma deref_flag:
  assumes "deref h a = Some n"
  shows "deref (h[a := Some (n\<lparr>nb_removed_children := v\<rparr>)]) b
           = (if b = a then Some (n\<lparr>nb_removed_children := v\<rparr>) else deref h b)"
  using deref_less [OF assms] by simp

lemma parents_ok_flag:
  assumes "deref h a = Some n" and "parents_ok h b" and "parents_ok h a"
  shows "parents_ok (h[a := Some (n\<lparr>nb_removed_children := v\<rparr>)]) b"
  using assms unfolding parents_ok_def deref_flag [OF assms(1)]
  by (cases "b = a") auto

lemma one_root_flag:
  assumes "deref h a = Some n" and "one_root h"
  shows "one_root (h[a := Some (n\<lparr>nb_removed_children := v\<rparr>)])"
  unfolding one_root_def deref_flag [OF assms(1)]
proof (intro allI impI)
  fix x y nx ny
  assume x: "(if x = a then Some (n\<lparr>nb_removed_children := v\<rparr>) else deref h x) = Some nx"
    "parent nx = None"
    and y: "(if y = a then Some (n\<lparr>nb_removed_children := v\<rparr>) else deref h y) = Some ny"
    "parent ny = None"
  from x assms(1) obtain nx' where "deref h x = Some nx'" "parent nx' = None"
    by (cases "x = a") auto
  moreover from y assms(1) obtain ny' where "deref h y = Some ny'" "parent ny' = None"
    by (cases "y = a") auto
  ultimately show "x = y" using assms(2) unfolding one_root_def by blast
qed

lemma one_root_delete:
  assumes "one_root h"
  shows "one_root (h[c := None])"
  unfolding one_root_def
proof (intro allI impI)
  fix x y nx ny
  assume "deref (h[c := None]) x = Some nx" "parent nx = None"
    "deref (h[c := None]) y = Some ny" "parent ny = None"
  then have "deref h x = Some nx" "deref h y = Some ny" "parent nx = None" "parent ny = None"
    by (simp_all split: if_splits)
  then show "x = y" using assms unfolding one_root_def by blast
qed

lemma decrement_loop_step:
  assumes "climbing h P current (Some nx)"
  shows "\<exists>n. deref (h[current := None]) nx = Some n \<and> nx \<notin> P
           \<and> (nb_removed_children n \<noteq> 0 \<longrightarrow> climbing (h[current := None]) P nx (parent n))
           \<and> (nb_removed_children n = 0 \<longrightarrow>
                inports_ok ((h[current := None])[nx := Some (n\<lparr>nb_removed_children := 1\<rparr>)]) P)"
proof -
  let ?h = "h[current := None]"
  from assms obtain c where c: "deref h current = Some c" "parent c = Some nx"
    by (auto simp: climbing_def)
  have k: "kids h current = {}" and pa: "\<And>a. parents_ok h a" and r: "one_root h"
    and pp: "\<forall>p \<in> P. deref h p \<noteq> None" and np: "current \<notin> P"
    and no: "\<And>a. a \<noteq> current \<Longrightarrow> node_ok h P a"
    using assms by (auto simp: climbing_def)
  have cl: "current < length h" by (rule deref_less [OF c(1)])
  from pa [of current] c obtain n where n: "deref h nx = Some n" and lt: "nx < current"
    by (auto simp: parents_ok_def)
  have n1: "deref ?h nx = Some n" using n lt by simp
  have ck: "current \<in> kids h nx" using c by (auto simp: kids_def)
  have nok: "node_ok h P nx" using no [of nx] lt by simp
  have nxP: "nx \<notin> P" using nok n ck by (auto simp: node_ok_def split: if_splits)
  have flag: "(nb_removed_children n = 0 \<and> card (kids h nx) = 2)
            \<or> (nb_removed_children n = 1 \<and> card (kids h nx) = 1)"
    using nok n nxP by (auto simp: node_ok_def)
  have kd: "kids ?h a = kids h a - {current}" for a by (rule kids_delete)
  have kd': "kids ?h a = kids h a" if "a \<noteq> nx" "deref h a \<noteq> None" for a
  proof -
    have "current \<notin> kids h a" using c that by (auto simp: kids_def)
    then show ?thesis by (simp add: kd)
  qed
  have pa1: "parents_ok ?h a" for a
  proof -
    have "q \<noteq> current" if "deref h a = Some m" "parent m = Some q" for m q
      using k that by (auto simp: kids_def)
    then show ?thesis using pa [of a] cl by (auto simp: parents_ok_def)
  qed
  have r1: "one_root ?h" by (rule one_root_delete [OF r])
  have pp1: "\<forall>p \<in> P. deref ?h p \<noteq> None" using pp np by auto
  have no1: "node_ok ?h P a" if "a \<noteq> nx" for a
  proof (cases "a = current")
    case True
    then show ?thesis using cl by (simp add: node_ok_def)
  next
    case False
    show ?thesis
    proof (cases "deref h a")
      case None
      then show ?thesis by (simp add: node_ok_def)
    next
      case (Some m)
      then have "kids ?h a = kids h a" using kd' [of a] that by simp
      then show ?thesis using no [OF False] False by (auto simp: node_ok_def)
    qed
  qed
  have up: "climbing ?h P nx (parent n)" if "nb_removed_children n \<noteq> 0"
  proof -
    have "card (kids h nx) = 1" using flag that by auto
    then have "kids h nx = {current}" using ck by (auto simp: card_1_singleton_iff)
    then have "kids ?h nx = {}" by (simp add: kd)
    then show ?thesis
      unfolding climbing_def using n1 nxP pa1 no1 pp1 r1 by blast
  qed
  have stop: "inports_ok (?h[nx := Some (n\<lparr>nb_removed_children := 1\<rparr>)]) P"
    if z: "nb_removed_children n = 0"
  proof -
    let ?h2 = "?h[nx := Some (n\<lparr>nb_removed_children := 1\<rparr>)]"
    have k2: "kids ?h2 a = kids ?h a" for a by (rule kids_flag [OF n1])
    have nl: "nx < length h" by (rule deref_less [OF n])
    have "card (kids h nx) = 2" using flag z by auto
    then have c1: "card (kids ?h nx) = 1" using ck by (simp add: kd)
    have "parents_ok ?h2 a" for a
      by (rule parents_ok_flag [OF n1 pa1 pa1])
    moreover have "node_ok ?h2 P a" for a
    proof (cases "a = nx")
      case True
      then show ?thesis
        using nxP c1 unfolding node_ok_def k2 deref_flag [OF n1] by simp
    next
      case False
      then show ?thesis
        using no1 [OF False] unfolding node_ok_def k2 deref_flag [OF n1] by simp
    qed
    moreover have "\<forall>p \<in> P. deref ?h2 p \<noteq> None"
      using pp1 unfolding deref_flag [OF n1] by simp
    moreover have "one_root ?h2" by (rule one_root_flag [OF n1 r1])
    ultimately show ?thesis unfolding inports_ok_def by blast
  qed
  show ?thesis using n1 nxP up stop by blast
qed

lemma decrement_loop_ok:
  assumes "climbing h P current next"
  shows "\<exists>st h' path. decrement_loop h current next visited = Inr (st, h', path) \<and> inports_ok h' P
           \<and> (st = activated \<longleftrightarrow> P = {}) \<and> (st = activated \<longrightarrow> (\<forall>a. deref h' a = None))"
  using assms
proof (induction h current "next" visited rule: decrement_loop.induct)
  case (1 h current nxt visited)
  note eq = decrement_loop.simps [of h current nxt visited]
  from "1.prems" obtain c where c: "deref h current = Some c" "parent c = nxt"
    by (auto simp: climbing_def)
  show ?case
  proof (cases nxt)
    case None
    have "decrement_loop h current nxt visited = Inr (activated, h[current := None], visited)"
      by (subst eq) (simp add: c None)
    then show ?thesis using decrement_loop_root [of h P current] "1.prems" None by simp
  next
    case (Some nx)
    from decrement_loop_step [of h P current nx] "1.prems" Some obtain n where
      n: "deref (h[current := None]) nx = Some n"
      and up: "nb_removed_children n \<noteq> 0 \<Longrightarrow> climbing (h[current := None]) P nx (parent n)"
      and stop: "nb_removed_children n = 0 \<Longrightarrow>
                inports_ok ((h[current := None])[nx := Some (n\<lparr>nb_removed_children := 1\<rparr>)]) P"
      by blast
    show ?thesis
    proof (cases "nb_removed_children n = 0")
      case True
      let ?h2 = "(h[current := None])[nx := Some (n\<lparr>nb_removed_children := 1\<rparr>)]"
      have r: "decrement_loop h current nxt visited = Inr (not_activated, ?h2, visited)"
        by (subst eq) (simp add: c Some n True Let_def del: deref_update)
      have "deref ?h2 nx = Some (n\<lparr>nb_removed_children := 1\<rparr>)"
        unfolding deref_flag [OF n] by simp
      from allocated_has_port [OF stop [OF True] this] have "P \<noteq> {}" .
      then show ?thesis using r stop [OF True] by simp
    next
      case False
      have r: "decrement_loop h current nxt visited
                 = decrement_loop (h[current := None]) nx (parent n) (visited @ [nx])"
        by (subst eq) (simp add: c Some n False Let_def del: deref_update)
      from "1.IH" [OF c(1) Some refl n False up [OF False]] show ?thesis
        unfolding r .
    qed
  qed
qed

lemma keeps_parents_refl: "keeps_parents h h"
  by (simp add: keeps_parents_def)

lemma keeps_parents_delete: "keeps_parents h0 h \<Longrightarrow> keeps_parents h0 (h[a := None])"
  unfolding keeps_parents_def by (auto split: if_splits)

lemma parent_chain_snoc:
  assumes "parent_chain h path" and "path \<noteq> []"
    and "deref h (last path) = Some c" and "parent c = Some b"
  shows "parent_chain h (path @ [b])"
  using assms
proof (induction h path rule: parent_chain.induct)
  case (1 h)
  then show ?case by simp
next
  case (2 h a)
  then show ?case by simp
next
  case (3 h a b path)
  then show ?case by simp
qed

lemma decrement_loop_path:
  assumes "decrement_loop h current next visited = Inr (st, h', path)"
    and "keeps_parents h0 h" and "visited \<noteq> []" and "last visited = current"
    and "parent_chain h0 visited" and "\<forall>c. deref h current = Some c \<longrightarrow> parent c = next"
  shows "path \<noteq> [] \<and> hd path = hd visited \<and> parent_chain h0 path
       \<and> (st = activated \<longleftrightarrow> (\<exists>c. deref h0 (last path) = Some c \<and> parent c = None))"
  using assms
proof (induction h current "next" visited rule: decrement_loop.induct)
  case (1 h current nxt visited)
  note eq = decrement_loop.simps [of h current nxt visited]
  note run = "1.prems"(1) [unfolded eq]
  from run obtain c where c: "deref h current = Some c"
    by (cases "deref h current") simp_all
  then have pc: "parent c = nxt" using "1.prems"(6) by simp
  from "1.prems"(2) c obtain c0 where c0: "deref h0 current = Some c0" "parent c0 = nxt"
    unfolding keeps_parents_def using pc by blast
  show ?case
  proof (cases nxt)
    case None
    then have "st = activated" "path = visited"
      using run c by simp_all
    then show ?thesis using "1.prems"(3,4,5) c0 None by simp
  next
    case (Some nx)
    from run c Some obtain n where n: "deref (h[current := None]) nx = Some n"
      by (cases "deref (h[current := None]) nx") (simp_all add: Let_def del: deref_update)
    show ?thesis
    proof (cases "nb_removed_children n = 0")
      case True
      then have "st = not_activated" "path = visited"
        using run c Some n by (simp_all add: Let_def del: deref_update)
      then show ?thesis using "1.prems"(3,4,5) c0 Some by auto
    next
      case False
      have r: "decrement_loop (h[current := None]) nx (parent n) (visited @ [nx]) = Inr (st, h', path)"
        using run c Some n False by (simp add: Let_def del: deref_update)
      have k: "keeps_parents h0 (h[current := None])"
        by (rule keeps_parents_delete [OF "1.prems"(2)])
      have ch: "parent_chain h0 (visited @ [nx])"
        using parent_chain_snoc [OF "1.prems"(5,3)] "1.prems"(4) c0 Some by simp
      have "\<forall>c. deref (h[current := None]) nx = Some c \<longrightarrow> parent c = parent n"
        using n by simp
      from "1.IH" [OF c Some refl n False r k _ _ ch this]
      show ?thesis using "1.prems"(3) by simp
    qed
  qed
qed

lemma decrement_path:
  assumes "portpassing_incounter_decrement h port = Inr (st, h', path)"
  shows "path \<noteq> [] \<and> Some (hd path) = port \<and> parent_chain h path
       \<and> (st = activated \<longleftrightarrow> (\<exists>c. deref h (last path) = Some c \<and> parent c = None))"
proof -
  from assms obtain p where p: "port = Some p"
    by (cases port) (simp_all add: portpassing_incounter_decrement_def)
  from assms p obtain c where c: "deref h p = Some c"
    by (cases "deref h p") (simp_all add: portpassing_incounter_decrement_def)
  have r: "decrement_loop h p (parent c) [p] = Inr (st, h', path)"
    using assms p c by (simp add: portpassing_incounter_decrement_def)
  from decrement_loop_path [OF r keeps_parents_refl] c p show ?thesis by simp
qed

lemma decrement_ok:
  assumes "inports_ok h P" and "p \<in> P"
  shows "\<exists>st h' path. portpassing_incounter_decrement h (Some p) = Inr (st, h', path)
           \<and> inports_ok h' (P - {p}) \<and> (st = activated \<longleftrightarrow> P - {p} = {})
           \<and> (st = activated \<longrightarrow> (\<forall>a. deref h' a = None))"
proof -
  from assms obtain c where c: "deref h p = Some c"
    by (auto simp: inports_ok_def)
  have no: "node_ok h P a" for a using assms(1) by (simp add: inports_ok_def)
  have "kids h p = {}" using no [of p] c assms(2) by (simp add: node_ok_def)
  moreover have "node_ok h (P - {p}) a" if "a \<noteq> p" for a
    using no [of a] that by (simp add: node_ok_def)
  ultimately have "climbing h (P - {p}) p (parent c)"
    using assms c unfolding climbing_def inports_ok_def by blast
  from decrement_loop_ok [OF this, of "[p]"] show ?thesis
    using c by (simp add: portpassing_incounter_decrement_def)
qed

lemma decrement_ports_ok:
  assumes "inports_ok h (set ps)" and "distinct ps" and "ps \<noteq> []"
  shows "\<exists>h'. decrement_ports h ps
                = Inr (replicate (length ps - 1) not_activated @ [activated], h')
             \<and> (\<forall>a. deref h' a = None)"
  using assms
proof (induction ps arbitrary: h)
  case Nil
  then show ?case by simp
next
  case (Cons p ps)
  have s: "set (p # ps) - {p} = set ps" using Cons.prems(2) by auto
  have pin: "p \<in> set (p # ps)" by simp
  from decrement_ok [OF Cons.prems(1) pin, unfolded s] obtain st h1 path where
    d: "portpassing_incounter_decrement h (Some p) = Inr (st, h1, path)"
    and ok: "inports_ok h1 (set ps)" and st: "st = activated \<longleftrightarrow> set ps = {}"
    and e: "st = activated \<longrightarrow> (\<forall>a. deref h1 a = None)"
    by blast
  show ?case
  proof (cases "ps = []")
    case True
    then show ?thesis using d st e by simp
  next
    case False
    from Cons.IH [OF ok _ False] Cons.prems(2) obtain h' where
      r: "decrement_ports h1 ps = Inr (replicate (length ps - 1) not_activated @ [activated], h')"
      and e': "\<forall>a. deref h' a = None"
      by auto
    have "st = not_activated" using st False by (cases st) auto
    moreover have "not_activated # replicate (length ps - 1) not_activated
                     = replicate (length ps) not_activated"
      using False by (cases ps) simp_all
    ultimately show ?thesis using d r e' by simp
  qed
qed

lemma deref_append:
  "deref (h @ xs) a = (if a < length h then deref h a else deref xs (a - length h))"
  by (auto simp: deref_def nth_append)

lemma increment_root_ok:
  "inports_ok [Some portpassing_incounter_node_new] {0}"
proof -
  let ?h = "[Some portpassing_incounter_node_new]"
  have d: "deref ?h a = (if a = 0 then Some portpassing_incounter_node_new else None)" for a
    by (simp add: deref_def)
  have k: "kids ?h a = {}" for a
    unfolding kids_def d by (auto simp: portpassing_incounter_node_new_def)
  show ?thesis
    unfolding inports_ok_def parents_ok_def node_ok_def one_root_def k d
    by (simp add: portpassing_incounter_node_new_def)
qed

lemma increment_port_ok:
  assumes "inports_ok h P" and "p \<in> P"
  defines "n \<equiv> portpassing_incounter_node_new\<lparr>parent := Some p\<rparr>"
  shows "inports_ok (h @ [Some n, Some n]) (P - {p} \<union> {length h, Suc (length h)})"
proof -
  let ?h = "h @ [Some n, Some n]"
  let ?P = "P - {p} \<union> {length h, Suc (length h)}"
  have pa: "parents_ok h a" and no: "node_ok h P a" for a
    using assms(1) by (simp_all add: inports_ok_def)
  have pp: "\<forall>p \<in> P. deref h p \<noteq> None" and r: "one_root h"
    using assms(1) by (simp_all add: inports_ok_def)
  from pp assms(2) obtain c where c: "deref h p = Some c" by auto
  have pl: "p < length h" by (rule deref_less [OF c])
  have d: "deref ?h a = (if a < length h then deref h a
                         else if a < length h + 2 then Some n else None)" for a
    by (auto simp: deref_def nth_append less_Suc_eq)
  have old: "deref h a = None" if "length h \<le> a" for a
    using that by (simp add: deref_def)
  have k: "kids ?h a = kids h a \<union> (if a = p then {length h, Suc (length h)} else {})" for a
    unfolding kids_def d using old
    by (auto simp: n_def split: if_splits dest: deref_less)
  have knew: "kids h a = {}" if "length h \<le> a" for a
  proof (rule ccontr)
    assume "kids h a \<noteq> {}"
    then obtain x m where "deref h x = Some m" "parent m = Some a" by (auto simp: kids_def)
    then have "deref h a \<noteq> None" using pa [of x] by (simp add: parents_ok_def)
    then show False using old [OF that] by simp
  qed
  have "parents_ok ?h a" for a
    using pa [of a] pl unfolding parents_ok_def d
    by (auto simp: n_def c split: if_splits dest: deref_less)
  moreover have "node_ok ?h ?P a" for a
  proof (cases "a < length h")
    case True
    show ?thesis
    proof (cases "a = p")
      case True
      have "kids h p = {}" using no [of p] c assms(2) by (simp add: node_ok_def)
      then have "card (kids ?h p) = 2" by (simp add: k)
      moreover have "nb_removed_children c = 0"
        using no [of p] c assms(2) by (simp add: node_ok_def)
      ultimately show ?thesis
        using True pl c unfolding node_ok_def d by simp
    next
      case False
      then show ?thesis
        using no [of a] True unfolding node_ok_def d k by auto
    qed
  next
    case False
    then have "kids ?h a = {}"
      using knew [of a] pl by (simp add: k)
    then show ?thesis
      using False unfolding node_ok_def d
      by (auto simp: n_def portpassing_incounter_node_new_def)
  qed
  moreover have "\<forall>q \<in> ?P. deref ?h q \<noteq> None"
  proof
    fix q assume "q \<in> ?P"
    then consider "q \<in> P" | "q = length h" | "q = Suc (length h)" by auto
    then show "deref ?h q \<noteq> None"
    proof cases
      case 1
      then obtain m where "deref h q = Some m" using pp by auto
      then show ?thesis using deref_less [of h q m] by (simp add: d)
    qed (simp_all add: d)
  qed
  moreover have "one_root ?h"
    unfolding one_root_def d
  proof (intro allI impI)
    fix x y nx ny
    assume "(if x < length h then deref h x else if x < length h + 2 then Some n else None)
              = Some nx" "parent nx = None"
      "(if y < length h then deref h y else if y < length h + 2 then Some n else None)
              = Some ny" "parent ny = None"
    then have "deref h x = Some nx" "deref h y = Some ny" "parent nx = None" "parent ny = None"
      by (auto simp: n_def split: if_splits)
    then show "x = y" using r unfolding one_root_def by blast
  qed
  ultimately show ?thesis unfolding inports_ok_def by blast
qed

lemma fork_ports_ok:
  assumes "fork_ports is h ports = (h', ports')"
    and "inports_ok h (set ports)" and "distinct ports" and "ports \<noteq> []"
  shows "inports_ok h' (set ports') \<and> distinct ports' \<and> ports' \<noteq> []"
  using assms
proof (induction "is" arbitrary: h ports)
  case Nil
  then show ?case by simp
next
  case (Cons i "is")
  show ?case
  proof (cases "length ports \<le> i")
    case True
    then show ?thesis using Cons.IH [of h ports] Cons.prems by simp
  next
    case False
    define p where "p = ports ! i"
    define n where "n = portpassing_incounter_node_new\<lparr>parent := Some p\<rparr>"
    let ?h = "h @ [Some n, Some n]"
    let ?ports = "ports[i := length h] @ [Suc (length h)]"
    have il: "i < length ports" using False by simp
    have pin: "p \<in> set ports" using il by (simp add: p_def)
    have r: "fork_ports is ?h ?ports = (h', ports')"
      using Cons.prems(1) False
      by (simp add: portpassing_incounter_increment_def p_def n_def)
    have lt: "q < length h" if "q \<in> set ports" for q
    proof -
      from Cons.prems(2) that have "deref h q \<noteq> None" by (simp add: inports_ok_def)
      then show ?thesis by (auto dest: deref_less)
    qed
    have s: "set ?ports = set ports - {p} \<union> {length h, Suc (length h)}"
      using set_update_distinct [OF Cons.prems(3) il, of "length h"] by (auto simp: p_def)
    have ok: "inports_ok ?h (set ?ports)"
      unfolding s n_def by (rule increment_port_ok [OF Cons.prems(2) pin])
    have "length h \<notin> set ports" "Suc (length h) \<notin> set ports"
      using lt [of "length h"] lt [of "Suc (length h)"] by auto
    then have di: "distinct ?ports"
      using Cons.prems(3) il
      by (auto simp: distinct_list_update dest!: subsetD [OF set_update_subset_insert])
    from Cons.IH [OF r ok di] show ?thesis by simp
  qed
qed

lemma port_tree_ok:
  assumes "port_tree is = (h, ports)"
  shows "inports_ok h (set ports) \<and> distinct ports \<and> ports \<noteq> []"
proof -
  have "fork_ports is [Some portpassing_incounter_node_new] [0] = (h, ports)"
    using assms by (simp add: port_tree_def portpassing_incounter_increment_def)
  from fork_ports_ok [OF this] increment_root_ok show ?thesis by simp
qed

text \<open>
  C7. A call of \<^verbatim>\<open>decrement(port)\<close> that returns has walked up the parent chain from the
  port, and it returns \<^emph>\<open>activated\<close> exactly when the last node of the walk has a null
  parent. In a port tree built by increments, when \<^verbatim>\<open>decrement\<close> is called once for
  each pending port, in any order and one call after the other, every call returns, the
  last call returns \<^emph>\<open>activated\<close> and the others \<^emph>\<open>not_activated\<close>, and every node of the
  tree is deleted.
\<close>

theorem portpassing_decrement_activates_once:
  "(\<forall>h port st h' path.
      portpassing_incounter_decrement h port = Inr (st, h', path) \<longrightarrow>
        path \<noteq> [] \<and> Some (hd path) = port \<and> parent_chain h path
      \<and> (st = activated \<longleftrightarrow> (\<exists>c. deref h (last path) = Some c \<and> parent c = None)))
 \<and> (\<forall>is h ports ps.
      port_tree is = (h, ports) \<longrightarrow> set ps = set ports \<longrightarrow> distinct ps \<longrightarrow>
        (\<exists>h'. decrement_ports h ps
                 = Inr (replicate (length ps - 1) not_activated @ [activated], h')
             \<and> (\<forall>a. deref h' a = None)))"
proof (intro conjI allI impI)
  fix "is" h ports ps
  assume a: "port_tree is = (h, ports)" "set ps = set ports" "distinct ps"
  from port_tree_ok [OF a(1)] a(2) have "inports_ok h (set ps)" "ps \<noteq> []" by auto
  from decrement_ports_ok [OF this(1) a(3) this(2)]
  show "\<exists>h'. decrement_ports h ps
                 = Inr (replicate (length ps - 1) not_activated @ [activated], h')
             \<and> (\<forall>a. deref h' a = None)" .
qed (use decrement_path in blast)+

theorem portpassing_decrement_activates_once_witness:
  "(\<exists>h'. decrement_ports (fst (port_tree [0, 1, 0])) [3, 6, 4, 5]
            = Inr ([not_activated, not_activated, not_activated, activated], h')
         \<and> (\<forall>a. deref h' a = None))
 \<and> (\<exists>h' path. portpassing_incounter_decrement (fst (port_tree [0, 1, 0])) (Some 3)
            = Inr (not_activated, h', path)
         \<and> hd path = 3 \<and> parent_chain (fst (port_tree [0, 1, 0])) path
         \<and> (\<forall>c. deref (fst (port_tree [0, 1, 0])) (last path) = Some c \<longrightarrow> parent c \<noteq> None))"
proof -
  note main = portpassing_decrement_activates_once
  have pt: "port_tree [0, 1, 0] = (fst (port_tree [0, 1, 0]), [5, 3, 4, 6])"
    by code_simp
  have s: "set [3, 6, 4, 5] = set [5, 3, 4, 6::nat]" "distinct [3, 6, 4, 5::nat]"
    by auto
  from main pt s have
    "\<exists>h'. decrement_ports (fst (port_tree [0, 1, 0])) [3, 6, 4, 5]
             = Inr (replicate (length [3, 6, 4, 5::nat] - 1) not_activated @ [activated], h')
         \<and> (\<forall>a. deref h' a = None)"
    by blast
  then have b: "\<exists>h'. decrement_ports (fst (port_tree [0, 1, 0])) [3, 6, 4, 5]
            = Inr ([not_activated, not_activated, not_activated, activated], h')
         \<and> (\<forall>a. deref h' a = None)"
    by (simp add: numeral_eq_Suc)
  have "case portpassing_incounter_decrement (fst (port_tree [0, 1, 0])) (Some 3) of
          Inl e \<Rightarrow> False | Inr (st, h', path) \<Rightarrow> st = not_activated"
    by code_simp
  then obtain h' path where
    d: "portpassing_incounter_decrement (fst (port_tree [0, 1, 0])) (Some 3)
          = Inr (not_activated, h', path)"
    by (auto split: sum.splits)
  from main d have "path \<noteq> [] \<and> Some (hd path) = Some 3
      \<and> parent_chain (fst (port_tree [0, 1, 0])) path
      \<and> (not_activated = activated \<longleftrightarrow>
           (\<exists>c. deref (fst (port_tree [0, 1, 0])) (last path) = Some c \<and> parent c = None))"
    by blast
  with d b show ?thesis by auto
qed


subsection \<open>A failed fork2 erases the out-set from both port maps\<close>

lemma deref_snoc_old: "deref h p = Some n \<Longrightarrow> deref (h @ xs) p = Some n"
  by (simp add: deref_def nth_append split: if_splits)

lemma fork2_branch_cases:
  assumes "deref h p = Some n"
  shows "fork2_branch h p i =
           (if child_slot i n = null_outset_pointer
            then Inr ((h @ [Some portpassing_outset_node_new])
                        [p := Some (store_child_slot i (0, Some (length h)) n)], Some (length h))
            else Inr ((h @ [Some portpassing_outset_node_new])[length h := None], None))"
  using assms by (simp add: fork2_branch_def compare_exchange_strong_def Let_def)

lemma fork2_branch_result:
  assumes "fork2_branch h p i = Inr (h', r)"
  shows "\<exists>n. deref h p = Some n
           \<and> (r = None \<longleftrightarrow> child_slot i n \<noteq> null_outset_pointer)
           \<and> (\<forall>q m. deref h q = Some m \<longrightarrow>
                 (\<exists>m'. deref h' q = Some m'
                    \<and> (\<forall>j. child_slot j m \<noteq> null_outset_pointer
                           \<longrightarrow> child_slot j m' \<noteq> null_outset_pointer)
                    \<and> (r = None \<longrightarrow> m' = m)))"
proof -
  from assms obtain n where n: "deref h p = Some n"
    by (cases "deref h p") (simp_all add: fork2_branch_def)
  have pl: "p < length h" using n by (simp add: deref_def split: if_splits)
  note c = fork2_branch_cases [OF n, of i]
  show ?thesis
  proof (cases "child_slot i n = null_outset_pointer")
    case True
    then have h': "h' = (h @ [Some portpassing_outset_node_new])
                          [p := Some (store_child_slot i (0, Some (length h)) n)]"
      and r: "r = Some (length h)"
      using assms c by auto
    have "\<exists>m'. deref h' q = Some m'
            \<and> (\<forall>j. child_slot j m \<noteq> null_outset_pointer
                   \<longrightarrow> child_slot j m' \<noteq> null_outset_pointer)
            \<and> (r = None \<longrightarrow> m' = m)"
      if "deref h q = Some m" for q m
    proof (cases "q = p")
      case True
      then have "m = n" using that n by simp
      then show ?thesis
        using True pl r \<open>child_slot i n = null_outset_pointer\<close>
        by (auto simp: h' deref_def child_slot_def store_child_slot_def null_outset_pointer_def)
    next
      case False
      then show ?thesis
        using deref_snoc_old [OF that, of "[Some portpassing_outset_node_new]"] r
        by (simp add: h')
    qed
    then show ?thesis using n True r by blast
  next
    case False
    then have h': "h' = (h @ [Some portpassing_outset_node_new])[length h := None]"
      and r: "r = None"
      using assms c by auto
    have "deref h' q = Some m" if "deref h q = Some m" for q m
    proof -
      have "q < length h" using that by (simp add: deref_def split: if_splits)
      then show ?thesis
        using that by (simp add: h' deref_def nth_append)
    qed
    then show ?thesis using n False r by blast
  qed
qed

lemma fork2_branch_keeps:
  assumes "fork2_branch h p i = Inr (h', r)" and "deref h q = Some m"
  shows "\<exists>m'. deref h' q = Some m'
           \<and> (child_slot 1 m \<noteq> null_outset_pointer \<longrightarrow> child_slot 1 m' \<noteq> null_outset_pointer)
           \<and> (child_slot 0 m \<noteq> null_outset_pointer \<longrightarrow> child_slot 0 m' \<noteq> null_outset_pointer)"
proof -
  from fork2_branch_result [OF assms(1)] have
    "\<forall>q m. deref h q = Some m \<longrightarrow>
       (\<exists>m'. deref h' q = Some m'
          \<and> (\<forall>j. child_slot j m \<noteq> null_outset_pointer
                 \<longrightarrow> child_slot j m' \<noteq> null_outset_pointer)
          \<and> (r = None \<longrightarrow> m' = m))"
    by (elim exE conjE)
  then have "\<exists>m'. deref h' q = Some m'
          \<and> (\<forall>j. child_slot j m \<noteq> null_outset_pointer
                 \<longrightarrow> child_slot j m' \<noteq> null_outset_pointer)
          \<and> (r = None \<longrightarrow> m' = m)"
    using assms(2) by (elim allE [of _ q] allE [of _ m] impE)
  then obtain m' where "deref h' q = Some m'"
    and "\<forall>j. child_slot j m \<noteq> null_outset_pointer \<longrightarrow> child_slot j m' \<noteq> null_outset_pointer"
    by (elim exE conjE)
  then show ?thesis by (intro exI [of _ m']) simp
qed

lemma fork2_branch_occupied:
  assumes "fork2_branch h p i = Inr (h', r)" and "occupied h q"
  shows "occupied h' q"
proof -
  obtain d where d: "deref h q = d" by simp
  from assms(2) d obtain m where m: "deref h q = Some m"
    by (cases d) (simp_all add: occupied_def)
  have o: "child_slot 1 m \<noteq> null_outset_pointer \<or> child_slot 0 m \<noteq> null_outset_pointer"
    using assms(2) unfolding occupied_def m by simp
  from fork2_branch_keeps [OF assms(1) m] obtain m' where
    m': "deref h' q = Some m'"
    and k1: "child_slot 1 m \<noteq> null_outset_pointer \<longrightarrow> child_slot 1 m' \<noteq> null_outset_pointer"
    and k0: "child_slot 0 m \<noteq> null_outset_pointer \<longrightarrow> child_slot 0 m' \<noteq> null_outset_pointer"
    by (elim exE conjE)
  from o k1 k0
  have "child_slot 1 m' \<noteq> null_outset_pointer \<or> child_slot 0 m' \<noteq> null_outset_pointer"
    by blast
  then show ?thesis unfolding occupied_def m' by simp
qed

lemma fork2_branch_None:
  assumes "fork2_branch h p i = Inr (h', r)" and "deref h p = Some n"
  shows "r = None \<longleftrightarrow> child_slot i n \<noteq> null_outset_pointer"
  using assms(1) unfolding fork2_branch_cases [OF assms(2)]
  by (cases "child_slot i n = null_outset_pointer") auto

lemma fork2_branch_slot0:
  assumes "fork2_branch h p 1 = Inr (h1, Some b)" and "deref h p = Some n"
  shows "\<exists>n1. deref h1 p = Some n1 \<and> child_slot 0 n1 = child_slot 0 n"
proof -
  have pl: "p < length h" using assms(2) by (simp add: deref_def split: if_splits)
  have "child_slot 1 n = null_outset_pointer"
    using fork2_branch_None [OF assms] by simp
  then have "h1 = (h @ [Some portpassing_outset_node_new])
                    [p := Some (store_child_slot 1 (0, Some (length h)) n)]"
    using assms(1) unfolding fork2_branch_cases [OF assms(2)] by auto
  then have "deref h1 p = Some (store_child_slot 1 (0, Some (length h)) n)"
    using pl by (simp add: deref_def)
  moreover have "child_slot 0 (store_child_slot 1 (0, Some (length h)) n) = child_slot 0 n"
    by (simp add: child_slot_def store_child_slot_def)
  ultimately show ?thesis by blast
qed

lemma fork2_result:
  assumes "fork2 h port = Inr (h', new_ports)"
  shows "\<exists>p. port = Some p \<and> (fst new_ports = None \<longleftrightarrow> occupied h p)
           \<and> (\<forall>q. occupied h q \<longrightarrow> occupied h' q)"
proof -
  from assms obtain p where p: "port = Some p"
    by (cases port) (simp_all add: fork2_def)
  have f0: "fork2 h port =
      (case fork2_branch h p 1 of
         Inl e \<Rightarrow> Inl e
       | Inr (h1, None) \<Rightarrow> Inr (h1, None, None)
       | Inr (h1, Some branch1) \<Rightarrow>
           (case fork2_branch h1 p 0 of
              Inl e \<Rightarrow> Inl e
            | Inr (h2, None) \<Rightarrow> Inr (h2, None, None)
            | Inr (h2, Some branch0) \<Rightarrow> Inr (h2, Some branch0, Some branch1)))"
    by (simp add: fork2_def p)
  obtain res1 where res1: "fork2_branch h p 1 = res1" by simp
  have "\<exists>x. res1 = Inr x"
    using assms unfolding f0 res1 by (cases res1) simp_all
  then obtain h1 r1 where b1: "fork2_branch h p 1 = Inr (h1, r1)"
    unfolding res1 by (cases res1) auto
  from fork2_branch_result [OF b1] obtain n where n: "deref h p = Some n"
    by (elim exE conjE)
  note r1 = fork2_branch_None [OF b1 n]
  note o1 = fork2_branch_occupied [OF b1]
  have occ: "occupied h p \<longleftrightarrow>
      child_slot 1 n \<noteq> null_outset_pointer \<or> child_slot 0 n \<noteq> null_outset_pointer"
    by (simp add: occupied_def n)
  show ?thesis
  proof (cases r1)
    case None
    have "fork2 h port = Inr (h1, None, None)"
      unfolding f0 b1 None by simp
    then have e: "h' = h1" "new_ports = (None, None)" using assms by simp_all
    have "occupied h p" using r1 None occ by simp
    then show ?thesis using p e o1 by simp
  next
    case (Some branch1)
    from fork2_branch_slot0 [OF b1 [unfolded Some] n] obtain n1 where
      n1: "deref h1 p = Some n1" and s0: "child_slot 0 n1 = child_slot 0 n"
      by blast
    have f1: "fork2 h port =
        (case fork2_branch h1 p 0 of
           Inl e \<Rightarrow> Inl e
         | Inr (h2, None) \<Rightarrow> Inr (h2, None, None)
         | Inr (h2, Some branch0) \<Rightarrow> Inr (h2, Some branch0, Some branch1))"
      unfolding f0 b1 Some by simp
    obtain res0 where res0: "fork2_branch h1 p 0 = res0" by simp
    have "\<exists>x. res0 = Inr x"
      using assms unfolding f1 res0 by (cases res0) simp_all
    then obtain h2 r0 where b0: "fork2_branch h1 p 0 = Inr (h2, r0)"
      unfolding res0 by (cases res0) auto
    note r0 = fork2_branch_None [OF b0 n1]
    note o2 = fork2_branch_occupied [OF b0]
    have nn: "child_slot 1 n = null_outset_pointer" using r1 Some by simp
    show ?thesis
    proof (cases r0)
      case None
      have "fork2 h port = Inr (h2, None, None)" unfolding f1 b0 None by simp
      then have e: "h' = h2" "new_ports = (None, None)" using assms by simp_all
      have "occupied h p" using r0 None s0 occ by simp
      then show ?thesis using p e o1 o2 by simp
    next
      case (Some branch0)
      have "fork2 h port = Inr (h2, Some branch0, Some branch1)"
        unfolding f1 b0 Some by simp
      then have e: "h' = h2" "new_ports = (Some branch0, Some branch1)" using assms by simp_all
      have "\<not> occupied h p" using r0 Some s0 occ nn by simp
      then show ?thesis using p e o1 o2 by simp
    qed
  qed
qed

lemma fork2_fails_occupied: "fork2_fails h (Some p) \<Longrightarrow> occupied h p"
proof -
  assume f: "fork2_fails h (Some p)"
  then obtain h' new_ports where r: "fork2 h (Some p) = Inr (h', new_ports)"
    by (cases "fork2 h (Some p)") (auto simp: fork2_fails_def)
  with f have "fst new_ports = None" by (simp add: fork2_fails_def)
  with fork2_result [OF r] show ?thesis by simp
qed

lemma map_of_update_None:
  "map_of (AList.update k v al) k' \<noteq> None \<longleftrightarrow> k' = k \<or> map_of al k' \<noteq> None"
  unfolding update_conv' by simp

lemma fork_out_ports_loop_erases:
  assumes "fork_out_ports_loop items h parent_ports child_ports to_erase
             = Inr (h', parent_ports', child_ports', to_erase')"
  shows "set to_erase \<subseteq> set to_erase'
       \<and> (\<forall>out p. (out, Some p) \<in> set items \<longrightarrow> map_of child_ports out \<noteq> None
              \<longrightarrow> occupied h p \<longrightarrow> out \<in> set to_erase')"
  using assms
proof (induction items arbitrary: h parent_ports child_ports to_erase)
  case Nil
  then show ?case by simp
next
  case (Cons item items)
  show ?case
  proof (cases "map_of child_ports (fst item) \<noteq> None")
    case False
    then have r: "fork_out_ports_loop items h parent_ports child_ports to_erase
                    = Inr (h', parent_ports', child_ports', to_erase')"
      using Cons.prems by simp
    from Cons.IH [OF r] False show ?thesis by auto
  next
    case True
    from Cons.prems True obtain h1 new_ports where
      f: "fork2 h (snd item) = Inr (h1, new_ports)"
      by (cases "fork2 h (snd item)") auto
    from fork2_result [OF f] obtain q where q: "snd item = Some q"
      and fl: "fst new_ports = None \<longleftrightarrow> occupied h q"
      and st: "\<And>x. occupied h x \<Longrightarrow> occupied h1 x"
      by auto
    show ?thesis
    proof (cases "fst new_ports = None")
      case n: True
      then have r: "fork_out_ports_loop items h1 parent_ports child_ports
                      (to_erase @ [fst item])
                      = Inr (h', parent_ports', child_ports', to_erase')"
        using Cons.prems True f by simp
      from Cons.IH [OF r] have sub: "set (to_erase @ [fst item]) \<subseteq> set to_erase'"
        and ih: "\<And>out p. (out, Some p) \<in> set items \<Longrightarrow> map_of child_ports out \<noteq> None
                   \<Longrightarrow> occupied h1 p \<Longrightarrow> out \<in> set to_erase'"
        by auto
      show ?thesis
      proof (intro conjI allI impI)
        show "set to_erase \<subseteq> set to_erase'" using sub by simp
      next
        fix out p
        assume a: "(out, Some p) \<in> set (item # items)" "map_of child_ports out \<noteq> None"
          "occupied h p"
        show "out \<in> set to_erase'"
        proof (cases "(out, Some p) = item")
          case True
          then show ?thesis using sub by auto
        next
          case False
          then show ?thesis using a ih [of out p] st by auto
        qed
      qed
    next
      case n: False
      let ?P = "AList.update (fst item) (fst new_ports) parent_ports"
      let ?C = "AList.update (fst item) (snd new_ports) child_ports"
      have r: "fork_out_ports_loop items h1 ?P ?C to_erase
                 = Inr (h', parent_ports', child_ports', to_erase')"
        using Cons.prems True f n by simp
      from Cons.IH [OF r] have sub: "set to_erase \<subseteq> set to_erase'"
        and ih: "\<And>out p. (out, Some p) \<in> set items \<Longrightarrow> map_of ?C out \<noteq> None
                   \<Longrightarrow> occupied h1 p \<Longrightarrow> out \<in> set to_erase'"
        by auto
      show ?thesis
      proof (intro conjI allI impI)
        show "set to_erase \<subseteq> set to_erase'" by (rule sub)
      next
        fix out p
        assume a: "(out, Some p) \<in> set (item # items)" "map_of child_ports out \<noteq> None"
          "occupied h p"
        have ni: "(out, Some p) \<noteq> item"
        proof
          assume "(out, Some p) = item"
          then have "q = p" using q by auto
          then show False using fl n a(3) by simp
        qed
        have "map_of ?C out \<noteq> None"
          unfolding map_of_update_None using a(2) by blast
        then show "out \<in> set to_erase'" using a ni ih [of out p] st by auto
      qed
    qed
  qed
qed

lemma map_of_delete_None: "map_of al k = None \<Longrightarrow> map_of (AList.delete k' al) k = None"
  unfolding delete_conv' by simp

lemma erase_ports_erases:
  assumes "erase_ports to_erase parent_ports child_ports = (parent_ports', child_ports')"
  shows "(\<forall>out. out \<in> set to_erase \<or> (map_of parent_ports out = None \<and> map_of child_ports out = None)
           \<longrightarrow> map_of parent_ports' out = None \<and> map_of child_ports' out = None)"
  using assms
proof (induction to_erase arbitrary: parent_ports child_ports)
  case Nil
  then show ?case by simp
next
  case (Cons x to_erase)
  from Cons.prems have
    r: "erase_ports to_erase (AList.delete x parent_ports) (AList.delete x child_ports)
          = (parent_ports', child_ports')"
    by simp
  show ?case
  proof (intro allI impI)
    fix out
    assume a: "out \<in> set (x # to_erase)
       \<or> (map_of parent_ports out = None \<and> map_of child_ports out = None)"
    have "out \<in> set to_erase
       \<or> (map_of (AList.delete x parent_ports) out = None
          \<and> map_of (AList.delete x child_ports) out = None)"
      using a unfolding delete_conv' by auto
    with Cons.IH [OF r]
    show "map_of parent_ports' out = None \<and> map_of child_ports' out = None" by blast
  qed
qed

lemma fork_out_ports_for_erases:
  assumes "fork_out_ports_for h parent_ports child_ports = Inr (h', parent_ports', child_ports')"
    and "(out, Some p) \<in> set parent_ports" and "map_of child_ports out \<noteq> None"
    and "occupied h p"
  shows "map_of parent_ports' out = None \<and> map_of child_ports' out = None"
proof -
  obtain res where res: "fork_out_ports_loop parent_ports h parent_ports child_ports [] = res"
    by simp
  have "\<exists>x. res = Inr x"
    using assms(1) unfolding fork_out_ports_for_def res by (cases res) auto
  then obtain x where x: "res = Inr x" by blast
  obtain h1 P1 C1 E where "x = (h1, P1, C1, E)" by (cases x)
  then have
    l: "fork_out_ports_loop parent_ports h parent_ports child_ports [] = Inr (h1, P1, C1, E)"
    using x res by simp
  have e: "erase_ports E P1 C1 = (parent_ports', child_ports')"
    using assms(1) unfolding fork_out_ports_for_def l by simp
  from fork_out_ports_loop_erases [OF l] assms(2,3,4) have "out \<in> set E" by blast
  with erase_ports_erases [OF e] show ?thesis by blast
qed

text \<open>
  C10. When \<^verbatim>\<open>propagate_ports_for(parent, child)\<close> returns, an out-set of the parent's
  out-port map that the child is to receive, and on whose port \<^verbatim>\<open>fork2\<close> fails (a slot of
  the port is not null, so a compare-and-swap from null loses), is in neither the parent's
  nor the child's out-port map afterwards.
\<close>

theorem fork_out_ports_failed_fork2_erased:
  assumes "propagate_ports_for parent_node child_node hs = Inr (parent_node', child_node', hs')"
    and "(out, port) \<in> set (outports parent_node)"
    and "map_of (propagate_ports_for_mode (outport_mode child_node)
                   (outports parent_node) (outports child_node)) out \<noteq> None"
    and "fork2_fails (outport_nodes hs) port"
  shows "map_of (outports parent_node') out = None \<and> map_of (outports child_node') out = None"
proof -
  from assms(4) obtain p where p: "port = Some p"
    by (cases port) (simp_all add: fork2_fails_def fork2_def)
  have occ: "occupied (outport_nodes hs) p"
    using assms(4) unfolding p by (rule fork2_fails_occupied)
  define child_out where "child_out = propagate_ports_for_mode (outport_mode child_node)
                   (outports parent_node) (outports child_node)"
  obtain res where res: "fork_out_ports_for (outport_nodes hs) (outports parent_node) child_out = res"
    by simp
  have "\<exists>x. res = Inr x"
    using assms(1) unfolding propagate_ports_for_def Let_def child_out_def [symmetric] res
    by (cases res) (auto split: prod.splits)
  then obtain x where x: "res = Inr x" by blast
  obtain ho P C where "x = (ho, P, C)" by (cases x)
  then have
    f: "fork_out_ports_for (outport_nodes hs) (outports parent_node) child_out = Inr (ho, P, C)"
    using x res by simp
  have "outports parent_node' = P \<and> outports child_node' = C"
    using assms(1) unfolding propagate_ports_for_def Let_def child_out_def [symmetric] f
    by (auto split: prod.splits)
  moreover have "map_of P out = None \<and> map_of C out = None"
    using fork_out_ports_for_erases [OF f _ _ occ, of out] assms(2,3)
    unfolding p child_out_def by simp
  ultimately show ?thesis by simp
qed

theorem fork_out_ports_failed_fork2_erased_witness:
  "\<exists>parent_node' child_node' hs'.
     propagate_ports_for example_parent example_child example_heaps
       = Inr (parent_node', child_node', hs')
   \<and> fork2_fails (outport_nodes example_heaps) (Some 0)
   \<and> map_of (outports parent_node') 20 = None \<and> map_of (outports child_node') 20 = None
   \<and> outports parent_node' = [(21, Some 4)] \<and> outports child_node' = [(21, Some 3)]"
proof -
  have "case propagate_ports_for example_parent example_child example_heaps of
          Inl e \<Rightarrow> False
        | Inr (P, C, H) \<Rightarrow> outports P = [(21, Some 4)] \<and> outports C = [(21, Some 3)]"
    by code_simp
  then obtain P C H where
    r: "propagate_ports_for example_parent example_child example_heaps = Inr (P, C, H)"
    and o: "outports P = [(21, Some 4)]" "outports C = [(21, Some 3)]"
    by (auto split: sum.splits)
  have a: "(20, Some 0) \<in> set (outports example_parent)"
    by (simp add: example_parent_def)
  have b: "map_of (propagate_ports_for_mode (outport_mode example_child)
                   (outports example_parent) (outports example_child)) 20 \<noteq> None"
    by (simp add: example_parent_def example_child_def propagate_ports_for_mode_def)
  have c: "fork2_fails (outport_nodes example_heaps) (Some 0)"
    by code_simp
  from fork_out_ports_failed_fork2_erased [OF r a b c] r o c show ?thesis
    by blast
qed


end
